theory Spec2Isabelle
  imports Complex_Main "HOL-Library.Multiset"
begin

section \<open>Python strings\<close>

text \<open>
  A Python \<open>str\<close> is a sequence of Unicode code points; a code point is modelled as a
  natural number, so \<open>len\<close>, slicing and \<open>text[:100]\<close> count code points as Python does.
\<close>

type_synonym pystr = "nat list"

text \<open>
  \<open>str.split()\<close>, \<open>str.strip()\<close> and the regular expression class \<open>\s\<close> (on \<open>str\<close>
  patterns) all use the same test, CPython's \<open>Py_UNICODE_ISSPACE\<close>: TAB..CR, FS..US,
  SPACE, NEL, NBSP, U+1680, U+2000..U+200A, U+2028, U+2029, U+202F, U+205F, U+3000.
\<close>

definition isspace :: "nat \<Rightarrow> bool" where
  "isspace c \<longleftrightarrow>
     (9 \<le> c \<and> c \<le> 13) \<or> (28 \<le> c \<and> c \<le> 32) \<or> c = 133 \<or> c = 160 \<or> c = 5760 \<or>
     (8192 \<le> c \<and> c \<le> 8202) \<or> c = 8232 \<or> c = 8233 \<or> c = 8239 \<or> c = 8287 \<or>
     c = 12288"

text \<open>The characters of the class \<open>[.!?]\<close>.\<close>

definition is_terminal :: "nat \<Rightarrow> bool" where
  "is_terminal c \<longleftrightarrow> c = 46 \<or> c = 33 \<or> c = 63"

text \<open>
  \<open>s.split()\<close>: the maximal runs of non-whitespace characters, in order. \<open>split_aux w s\<close>
  scans \<open>s\<close> with the word \<open>w\<close> read so far.
\<close>

fun split_aux :: "pystr \<Rightarrow> pystr \<Rightarrow> pystr list" where
  "split_aux w [] = (if w = [] then [] else [w])"
| "split_aux w (c # cs) =
     (if isspace c then (if w = [] then split_aux [] cs else w # split_aux [] cs)
      else split_aux (w @ [c]) cs)"

definition py_split :: "pystr \<Rightarrow> pystr list" where
  "py_split s = split_aux [] s"

text \<open>\<open>s.strip()\<close>.\<close>

definition py_strip :: "pystr \<Rightarrow> pystr" where
  "py_strip s = rev (dropWhile isspace (rev (dropWhile isspace s)))"

text \<open>\<open>' '.join(ws)\<close>.\<close>

fun py_join :: "pystr list \<Rightarrow> pystr" where
  "py_join [] = []"
| "py_join [w] = w"
| "py_join (w # v # ws) = w @ 32 # py_join (v # ws)"

text \<open>
  The slice \<open>xs[s:]\<close>: a negative start counts from the end, and both ends are clamped
  to the list.
\<close>

definition py_slice_from :: "int \<Rightarrow> 'a list \<Rightarrow> 'a list" where
  "py_slice_from s xs =
     (let n = int (length xs);
          i = (if s < 0 then max 0 (n + s) else min s n)
      in drop (nat i) xs)"

text \<open>The slice \<open>xs[:e]\<close>.\<close>

definition py_slice_to :: "int \<Rightarrow> 'a list \<Rightarrow> 'a list" where
  "py_slice_to e xs =
     (let n = int (length xs);
          j = (if e < 0 then max 0 (n + e) else min e n)
      in take (nat j) xs)"

section \<open>Chunker (chunking/chunker.py)\<close>

text \<open>
  \<open>re.split(r'(?<=[.!?])\s+', text)\<close>: a match starts at a whitespace character whose
  left neighbour in the text is one of \<open>.!?\<close> and takes the whole whitespace run. \<open>cur\<close>
  is the piece read since the last match. Right after a match the piece is empty and the
  next character is not whitespace, and at the start of the text there is no left
  neighbour, so the left neighbour is consulted only when \<open>cur\<close> is non-empty, where it
  is \<open>last cur\<close>.
\<close>

function re_split_sentences :: "pystr \<Rightarrow> pystr \<Rightarrow> pystr list" where
  "re_split_sentences cur [] = [cur]"
| "re_split_sentences cur (c # cs) =
     (if isspace c \<and> cur \<noteq> [] \<and> is_terminal (last cur)
      then cur # re_split_sentences [] (dropWhile isspace cs)
      else re_split_sentences (cur @ [c]) cs)"
  by pat_completeness auto
termination
  by (relation "measure (\<lambda>(cur, s). length s)")
     (auto simp: length_dropWhile_le less_Suc_eq_le)

definition split_into_sentences :: "pystr \<Rightarrow> pystr list" where
  "split_into_sentences text =
     map py_strip (filter (\<lambda>s. py_strip s \<noteq> []) (re_split_sentences [] text))"

datatype pyval = VInt int | VStr pystr

type_synonym pydict = "(string \<times> pyval) list"

record chunk =
  chunk_id :: int
  chunk_text :: pystr
  word_count :: int
  metadata :: pydict

record chunker_config =
  chunk_size_words :: int
  overlap_words :: int
  min_chunk_size :: int

text \<open>The local variables of the loop of \<open>create_chunks\<close>.\<close>

record pack_state =
  chunks :: "chunk list"
  current_chunk :: "pystr list"
  current_word_count :: int
  chunk_index :: int

definition init_state :: pack_state where
  "init_state = \<lparr>chunks = [], current_chunk = [], current_word_count = 0, chunk_index = 0\<rparr>"

text \<open>\<open>metadata or {}\<close>: \<open>None\<close> and the empty dictionary both give \<open>{}\<close>.\<close>

definition md_or_empty :: "pydict option \<Rightarrow> pydict" where
  "md_or_empty md = (case md of None \<Rightarrow> [] | Some m \<Rightarrow> m)"

text \<open>Sealing the buffer: the chunk appended when the buffer is closed.\<close>

definition seal :: "pydict option \<Rightarrow> pack_state \<Rightarrow> chunk" where
  "seal md st =
     \<lparr>chunk_id = chunk_index st, chunk_text = py_join (current_chunk st),
      word_count = current_word_count st, metadata = md_or_empty md\<rparr>"

text \<open>
  \<open>' '.join(current_chunk[-overlap_words:]) if len(current_chunk) > overlap_words
   else ' '.join(current_chunk)\<close>.
\<close>

definition overlap_text :: "chunker_config \<Rightarrow> pystr list \<Rightarrow> pystr" where
  "overlap_text cfg cur =
     (if int (length cur) > overlap_words cfg
      then py_join (py_slice_from (- overlap_words cfg) cur)
      else py_join cur)"

text \<open>One iteration of the loop over the sentences.\<close>

definition add_sentence :: "chunker_config \<Rightarrow> pydict option \<Rightarrow> pack_state \<Rightarrow> pystr \<Rightarrow> pack_state" where
  "add_sentence cfg md st sentence =
     (let sentence_words = py_split sentence;
          sentence_word_count = int (length sentence_words);
          st1 =
            (if current_word_count st + sentence_word_count > chunk_size_words cfg
                \<and> current_chunk st \<noteq> []
             then
               (let cur = py_split (overlap_text cfg (current_chunk st))
                in \<lparr>chunks = chunks st @ [seal md st],
                    current_chunk = cur,
                    current_word_count = int (length cur),
                    chunk_index = chunk_index st + 1\<rparr>)
             else st)
      in st1\<lparr>current_chunk := current_chunk st1 @ sentence_words,
             current_word_count := current_word_count st1 + sentence_word_count\<rparr>)"

fun pack_sentences :: "chunker_config \<Rightarrow> pydict option \<Rightarrow> pack_state \<Rightarrow> pystr list \<Rightarrow> pack_state" where
  "pack_sentences cfg md st [] = st"
| "pack_sentences cfg md st (s # ss) = pack_sentences cfg md (add_sentence cfg md st s) ss"

text \<open>The final chunk, kept when the buffer is non-empty and meets the minimum size.\<close>

definition finish :: "chunker_config \<Rightarrow> pydict option \<Rightarrow> pack_state \<Rightarrow> chunk list" where
  "finish cfg md st =
     (if current_chunk st \<noteq> [] \<and> current_word_count st \<ge> min_chunk_size cfg
      then chunks st @ [seal md st]
      else chunks st)"

definition create_chunks :: "chunker_config \<Rightarrow> pystr \<Rightarrow> pydict option \<Rightarrow> chunk list" where
  "create_chunks cfg txt md =
     (if py_strip txt = [] then []
      else finish cfg md (pack_sentences cfg md init_state (split_into_sentences txt)))"

text \<open>A string literal of the source, as code points.\<close>

definition lit :: "string \<Rightarrow> pystr" where
  "lit s = map of_char s"

text \<open>\<open>d.get(k, default)\<close>.\<close>

definition dict_get :: "pydict \<Rightarrow> string \<Rightarrow> pyval \<Rightarrow> pyval" where
  "dict_get d k dflt = (case map_of d k of None \<Rightarrow> dflt | Some v \<Rightarrow> v)"

text \<open>
  A page dictionary: the keys \<open>page_number\<close>, \<open>text\<close> and \<open>method\<close>, each of which
  may be missing (the source reads them with \<open>.get\<close>).
\<close>

record page =
  page_number :: "pyval option"
  page_text :: "pystr option"
  page_method :: "pyval option"

text \<open>
  The metadata dictionary built for a page; \<open>if doc_metadata:\<close> holds for a dictionary
  that is neither \<open>None\<close> nor empty.
\<close>

definition chunk_metadata :: "pydict option \<Rightarrow> page \<Rightarrow> pydict" where
  "chunk_metadata doc_metadata p =
     (let base =
            [(''page_number'', case page_number p of None \<Rightarrow> VInt 0 | Some v \<Rightarrow> v),
             (''extraction_method'',
                case page_method p of None \<Rightarrow> VStr (lit ''unknown'') | Some v \<Rightarrow> v)]
      in case doc_metadata of
           None \<Rightarrow> base
         | Some dm \<Rightarrow>
             if dm = [] then base
             else base @
               [(''document_title'', dict_get dm ''title'' (VStr [])),
                (''document_author'', dict_get dm ''author'' (VStr [])),
                (''filename'', dict_get dm ''filename'' (VStr []))])"

text \<open>\<open>page.get('text', '')\<close>.\<close>

definition page_text_or_empty :: "page \<Rightarrow> pystr" where
  "page_text_or_empty p = (case page_text p of None \<Rightarrow> [] | Some t \<Rightarrow> t)"

text \<open>The body of the loop over the pages: the chunks one page adds to \<open>all_chunks\<close>.\<close>

definition page_chunks :: "chunker_config \<Rightarrow> pydict option \<Rightarrow> page \<Rightarrow> chunk list" where
  "page_chunks cfg doc_metadata p =
     (let txt = page_text_or_empty p
      in if py_strip txt = [] then []
         else create_chunks cfg txt (Some (chunk_metadata doc_metadata p)))"

text \<open>\<open>for i, chunk in enumerate(all_chunks): chunk['chunk_id'] = i\<close>.\<close>

definition reindex :: "chunk list \<Rightarrow> chunk list" where
  "reindex cs = map (\<lambda>(i, c). c\<lparr>chunk_id := int i\<rparr>) (enumerate 0 cs)"

definition chunk_document_pages :: "chunker_config \<Rightarrow> page list \<Rightarrow> pydict option \<Rightarrow> chunk list" where
  "chunk_document_pages cfg pages doc_metadata =
     reindex (concat (map (page_chunks cfg doc_metadata) pages))"

section \<open>Vector store (vector_store/chroma_manager.py)\<close>

text \<open>
  Scores, distances and weights are Python floats; they are modelled as real numbers, so
  the arithmetic below is exact.
\<close>

datatype error = TypeError | ExternalError string

text \<open>
  One row of the answer of \<open>collection.query\<close>: the entries at one position of its
  parallel lists \<open>ids[0]\<close>, \<open>documents[0]\<close>, \<open>metadatas[0]\<close> and \<open>distances[0]\<close>.
\<close>

record hit =
  hit_id :: string
  hit_document :: pystr
  hit_metadata :: pydict
  hit_distance :: real

text \<open>
  The answer of \<open>collection.query\<close> for the single query it is given: its rows in rank
  order, and whether the key \<open>distances\<close> is in it.
\<close>

record query_result =
  hits :: "hit list"
  has_distances :: bool

text \<open>
  The collection, an external collaborator: the query by embedding (with the embedding of
  the query text computed first) and the query by text, each of which may raise.
\<close>

record collection =
  query_embeddings :: "pystr \<Rightarrow> int \<Rightarrow> error + query_result"
  query_texts :: "pystr \<Rightarrow> int \<Rightarrow> error + query_result"

text \<open>
  The field \<open>similarity\<close> of a result dictionary: the key may be missing, and when it is
  there its value may be \<open>None\<close>.
\<close>

datatype sim_field = NoKey | IsNone | Val real

text \<open>A result dictionary; the value of \<open>distance\<close> may be \<open>None\<close>.\<close>

record candidate =
  cand_id :: string
  cand_text :: pystr
  cand_metadata :: pydict
  distance :: "real option"
  similarity :: sim_field

definition format_result :: "bool \<Rightarrow> hit \<Rightarrow> candidate" where
  "format_result has_dist h =
     \<lparr>cand_id = hit_id h, cand_text = hit_document h, cand_metadata = hit_metadata h,
      distance = (if has_dist then Some (hit_distance h) else None),
      similarity = (if has_dist then Val (1 - hit_distance h) else IsNone)\<rparr>"

definition search :: "collection \<Rightarrow> pystr \<Rightarrow> int \<Rightarrow> error + candidate list" where
  "search col query n_results =
     (case query_embeddings col query n_results of
        Inl e \<Rightarrow> Inl e
      | Inr results \<Rightarrow> Inr (map (format_result (has_distances results)) (hits results)))"

text \<open>The dictionary \<open>result_scores\<close>, in insertion order: id, result and score.\<close>

type_synonym scores = "(string \<times> candidate \<times> real) list"

text \<open>\<open>d[k] = v\<close>: an existing key keeps its position, a new key goes last.\<close>

fun dict_set :: "'k \<Rightarrow> 'v \<Rightarrow> ('k \<times> 'v) list \<Rightarrow> ('k \<times> 'v) list" where
  "dict_set k v [] = [(k, v)]"
| "dict_set k v (p # ps) = (if fst p = k then (k, v) # ps else p # dict_set k v ps)"

text \<open>\<open>1 - (i / len(results))\<close>.\<close>

definition rank_score :: "nat \<Rightarrow> nat \<Rightarrow> real" where
  "rank_score i n = 1 - real i / real n"

text \<open>The loop over \<open>enumerate(semantic_results)\<close>.\<close>

definition score_semantic :: "real \<Rightarrow> candidate list \<Rightarrow> scores" where
  "score_semantic semantic_weight semantic_results =
     fold (\<lambda>(i, result) result_scores.
             dict_set (cand_id result)
               (result, rank_score i (length semantic_results) * semantic_weight) result_scores)
          (enumerate 0 semantic_results) []"

text \<open>The result built for an id that only the keyword query returned.\<close>

definition keyword_result :: "bool \<Rightarrow> hit \<Rightarrow> candidate" where
  "keyword_result has_dist h =
     \<lparr>cand_id = hit_id h, cand_text = hit_document h, cand_metadata = hit_metadata h,
      distance = (if has_dist then Some (hit_distance h) else None),
      similarity = NoKey\<rparr>"

text \<open>The loop over \<open>enumerate(keyword_results['ids'][0])\<close>.\<close>

definition add_keyword_scores :: "real \<Rightarrow> query_result \<Rightarrow> scores \<Rightarrow> scores" where
  "add_keyword_scores keyword_weight keyword_results scores0 =
     fold (\<lambda>(i, h) result_scores.
             let keyword_score = rank_score i (length (hits keyword_results)) in
             case map_of result_scores (hit_id h) of
               Some (result, score) \<Rightarrow>
                 dict_set (hit_id h) (result, score + keyword_score * keyword_weight) result_scores
             | None \<Rightarrow>
                 dict_set (hit_id h)
                   (keyword_result (has_distances keyword_results) h,
                    keyword_score * keyword_weight) result_scores)
          (enumerate 0 (hits keyword_results)) scores0"

text \<open>
  \<open>sorted(xs, key=f, reverse=True)\<close>: descending by key, and stable (elements with equal
  keys keep their order).
\<close>

definition sorted_desc :: "('a \<Rightarrow> real) \<Rightarrow> 'a list \<Rightarrow> 'a list" where
  "sorted_desc f xs = sort_key (\<lambda>x. - f x) xs"

text \<open>The dictionary \<open>result_scores\<close> after both loops.\<close>

definition fuse :: "real \<Rightarrow> real \<Rightarrow> candidate list \<Rightarrow> query_result \<Rightarrow> scores" where
  "fuse semantic_weight keyword_weight semantic_results keyword_results =
     add_keyword_scores keyword_weight keyword_results
       (score_semantic semantic_weight semantic_results)"

text \<open>\<open>ranked_results\<close>: the values of \<open>result_scores\<close>, sorted and cut to \<open>n_results\<close>.\<close>

definition ranked_results :: "int \<Rightarrow> scores \<Rightarrow> (candidate \<times> real) list" where
  "ranked_results n_results result_scores =
     py_slice_to n_results (sorted_desc snd (map snd result_scores))"

definition hybrid_search :: "collection \<Rightarrow> pystr \<Rightarrow> int \<Rightarrow> real \<Rightarrow> real \<Rightarrow> error + candidate list" where
  "hybrid_search col query n_results semantic_weight keyword_weight =
     (let search_n = n_results * 2 in
      case search col query search_n of
        Inl e \<Rightarrow> Inl e
      | Inr semantic_results \<Rightarrow>
          (case query_texts col query search_n of
             Inl e \<Rightarrow> Inl e
           | Inr keyword_results \<Rightarrow>
               Inr (map fst (ranked_results n_results
                      (fuse semantic_weight keyword_weight semantic_results keyword_results)))))"

section \<open>Hybrid retriever (qa_pipeline/retriever.py)\<close>

text \<open>
  The retriever: its collection, its query expander (an external collaborator that
  returns the list of query variations and handles the failures of its language model
  itself) and its settings.
\<close>

record retriever =
  chroma_manager :: collection
  expand_query :: "pystr \<Rightarrow> pystr list"
  top_k :: int
  similarity_threshold :: real
  use_hybrid :: bool
  semantic_weight :: real
  keyword_weight :: real

text \<open>\<open>text[:100]\<close>.\<close>

definition fingerprint :: "candidate \<Rightarrow> pystr" where
  "fingerprint result = take 100 (cand_text result)"

fun dedup_loop :: "pystr set \<Rightarrow> candidate list \<Rightarrow> candidate list" where
  "dedup_loop seen_texts [] = []"
| "dedup_loop seen_texts (result # results) =
     (if fingerprint result \<notin> seen_texts
      then result # dedup_loop (insert (fingerprint result) seen_texts) results
      else dedup_loop seen_texts results)"

definition deduplicate_results :: "candidate list \<Rightarrow> candidate list" where
  "deduplicate_results results = dedup_loop {} results"

text \<open>
  \<open>r.get('similarity', 0) >= threshold\<close>: a missing key counts as 0, and comparing
  \<open>None\<close> with a number raises \<open>TypeError\<close>.
\<close>

definition meets_threshold :: "real \<Rightarrow> candidate \<Rightarrow> error + bool" where
  "meets_threshold threshold r =
     (case similarity r of
        NoKey \<Rightarrow> Inr (0 \<ge> threshold)
      | IsNone \<Rightarrow> Inl TypeError
      | Val v \<Rightarrow> Inr (v \<ge> threshold))"

fun filter_by_threshold :: "real \<Rightarrow> candidate list \<Rightarrow> error + candidate list" where
  "filter_by_threshold threshold [] = Inr []"
| "filter_by_threshold threshold (r # rs) =
     (case meets_threshold threshold r of
        Inl e \<Rightarrow> Inl e
      | Inr keep \<Rightarrow>
          (case filter_by_threshold threshold rs of
             Inl e \<Rightarrow> Inl e
           | Inr rest \<Rightarrow> Inr (if keep then r # rest else rest)))"

text \<open>
  The sort key \<open>x.get('similarity', 0)\<close>. The list sorted has passed the filter, so no
  value is \<open>None\<close> there.
\<close>

definition similarity_key :: "candidate \<Rightarrow> real" where
  "similarity_key x = (case similarity x of Val v \<Rightarrow> v | _ \<Rightarrow> 0)"

text \<open>The body of the loop over the query variations.\<close>

definition search_variation :: "retriever \<Rightarrow> int \<Rightarrow> pystr \<Rightarrow> error + candidate list" where
  "search_variation r k variation =
     (if use_hybrid r
      then hybrid_search (chroma_manager r) variation k (semantic_weight r) (keyword_weight r)
      else search (chroma_manager r) variation k)"

text \<open>The loop: \<open>all_results\<close>, or the first exception a search raises.\<close>

fun search_all :: "retriever \<Rightarrow> int \<Rightarrow> pystr list \<Rightarrow> error + candidate list" where
  "search_all r k [] = Inr []"
| "search_all r k (variation # variations) =
     (case search_variation r k variation of
        Inl e \<Rightarrow> Inl e
      | Inr results \<Rightarrow>
          (case search_all r k variations of
             Inl e \<Rightarrow> Inl e
           | Inr rest \<Rightarrow> Inr (results @ rest)))"

text \<open>\<open>k = top_k or self.top_k\<close>: \<open>None\<close> and 0 both give the configured value.\<close>

definition effective_k :: "retriever \<Rightarrow> int option \<Rightarrow> int" where
  "effective_k r k_arg = (case k_arg of None \<Rightarrow> top_k r | Some k \<Rightarrow> if k = 0 then top_k r else k)"

text \<open>What follows the loop: deduplicate, filter, sort by similarity, cut to \<open>k\<close>.\<close>

definition post_process :: "retriever \<Rightarrow> int \<Rightarrow> candidate list \<Rightarrow> error + candidate list" where
  "post_process r k all_results =
     (case filter_by_threshold (similarity_threshold r) (deduplicate_results all_results) of
        Inl e \<Rightarrow> Inl e
      | Inr filtered_results \<Rightarrow> Inr (py_slice_to k (sorted_desc similarity_key filtered_results)))"

definition retrieve_with_expansion :: "retriever \<Rightarrow> pystr \<Rightarrow> int option \<Rightarrow> error + candidate list" where
  "retrieve_with_expansion r query k_arg =
     (let k = effective_k r k_arg;
          query_variations = expand_query r query
      in case search_all r k query_variations of
           Inl e \<Rightarrow> Inl e
         | Inr all_results \<Rightarrow> post_process r k all_results)"

definition retrieve :: "retriever \<Rightarrow> pystr \<Rightarrow> int option \<Rightarrow> error + candidate list" where
  "retrieve r query k_arg = retrieve_with_expansion r query k_arg"

section \<open>Auxiliary notions for the statements\<close>

text \<open>A word as \<open>split()\<close> returns it: non-empty and free of whitespace.\<close>

definition good_word :: "pystr \<Rightarrow> bool" where
  "good_word w \<longleftrightarrow> w \<noteq> [] \<and> (\<forall>c\<in>set w. \<not> isspace c)"

text \<open>The invariant of the loop of \<open>create_chunks\<close>.\<close>

definition pack_inv :: "pack_state \<Rightarrow> bool" where
  "pack_inv st \<longleftrightarrow>
     current_word_count st = int (length (current_chunk st)) \<and>
     chunk_index st = int (length (chunks st)) \<and>
     (\<forall>w\<in>set (current_chunk st). good_word w) \<and>
     (\<forall>c\<in>set (chunks st). int (length (py_split (chunk_text c))) = word_count c)"

text \<open>A one-word sentence terminated by a full stop, such as \<open>a.\<close>\<close>

definition one_word_sentence :: "pystr \<Rightarrow> bool" where
  "one_word_sentence w \<longleftrightarrow> w \<noteq> [] \<and> (\<forall>c\<in>set w. \<not> isspace c) \<and> last w = 46"

text \<open>The configuration and an input of the fifteen-sentence scenario.\<close>

definition scenario_config :: chunker_config where
  "scenario_config = \<lparr>chunk_size_words = 10, overlap_words = 3, min_chunk_size = 5\<rparr>"

definition scenario_words :: "pystr list" where
  "scenario_words = map lit [''a.'', ''b.'', ''c.'', ''d.'', ''e.'', ''f.'', ''g.'', ''h.'',
     ''i.'', ''j.'', ''k.'', ''l.'', ''m.'', ''n.'', ''o.'']"

definition scenario_text :: pystr where
  "scenario_text = lit ''a. b. c. d. e. f. g. h. i. j. k. l. m. n. o.''"

definition scenario_page :: page where
  "scenario_page = \<lparr>page_number = Some (VInt 1), page_text = Some scenario_text,
     page_method = Some (VStr (lit ''pdfplumber''))\<rparr>"

text \<open>A chunk without its id: text, word count and metadata.\<close>

definition content :: "chunk \<Rightarrow> pystr \<times> int \<times> pydict" where
  "content c = (chunk_text c, word_count c, metadata c)"

text \<open>The scenario with a minimum size that the eight-word tail does not meet.\<close>

definition short_tail_config :: chunker_config where
  "short_tail_config = \<lparr>chunk_size_words = 10, overlap_words = 3, min_chunk_size = 9\<rparr>"

text \<open>Position \<open>i\<close> holds the first candidate with its fingerprint.\<close>

definition first_seen :: "candidate list \<Rightarrow> nat \<Rightarrow> bool" where
  "first_seen X i \<longleftrightarrow> fingerprint (X ! i) \<notin> fingerprint ` set (take i X)"

text \<open>The body of the keyword loop, with the new result and the contribution abstracted.\<close>

definition kw_step :: "(hit \<Rightarrow> candidate) \<Rightarrow> (nat \<Rightarrow> real) \<Rightarrow> nat \<times> hit \<Rightarrow> scores \<Rightarrow> scores" where
  "kw_step new c = (\<lambda>(i, h) result_scores.
             case map_of result_scores (hit_id h) of
               Some (result, score) \<Rightarrow>
                 dict_set (hit_id h) (result, score + c i) result_scores
             | None \<Rightarrow>
                 dict_set (hit_id h) (new h, c i) result_scores)"

text \<open>The score an id has in \<open>result_scores\<close>, 0 when it has no entry.\<close>

definition score_of :: "scores \<Rightarrow> string \<Rightarrow> real" where
  "score_of result_scores d = (case map_of result_scores d of None \<Rightarrow> 0 | Some (r, s) \<Rightarrow> s)"



text \<open>
  A retrieval with two query variations, \<open>q\<close> and \<open>r\<close>. For \<open>q\<close> the semantic query
  returns \<open>b\<close>, \<open>c\<close>, \<open>a\<close> and the keyword query \<open>a\<close>, \<open>k\<close>; for \<open>r\<close> both return \<open>a\<close>.
\<close>

definition hit_b :: hit where
  "hit_b = \<lparr>hit_id = ''b'', hit_document = lit ''beta'', hit_metadata = [], hit_distance = 0.5\<rparr>"

definition hit_c :: hit where
  "hit_c = \<lparr>hit_id = ''c'', hit_document = lit ''gamma'', hit_metadata = [], hit_distance = 0.55\<rparr>"

definition hit_a1 :: hit where
  "hit_a1 = \<lparr>hit_id = ''a'', hit_document = lit ''alpha'', hit_metadata = [], hit_distance = 0.6\<rparr>"

definition hit_a_kw :: hit where
  "hit_a_kw = \<lparr>hit_id = ''a'', hit_document = lit ''alpha'', hit_metadata = [], hit_distance = 0.2\<rparr>"

definition hit_k :: hit where
  "hit_k = \<lparr>hit_id = ''k'', hit_document = lit ''kappa'', hit_metadata = [], hit_distance = 0.05\<rparr>"

definition hit_a2 :: hit where
  "hit_a2 = \<lparr>hit_id = ''a'', hit_document = lit ''alpha'', hit_metadata = [], hit_distance = 0.1\<rparr>"

definition q_semantic :: query_result where
  "q_semantic = \<lparr>hits = [hit_b, hit_c, hit_a1], has_distances = True\<rparr>"

definition q_keyword :: query_result where
  "q_keyword = \<lparr>hits = [hit_a_kw, hit_k], has_distances = True\<rparr>"

definition r_semantic :: query_result where
  "r_semantic = \<lparr>hits = [hit_a2], has_distances = True\<rparr>"

definition r_keyword :: query_result where
  "r_keyword = \<lparr>hits = [hit_a2], has_distances = True\<rparr>"

definition two_variant_collection :: collection where
  "two_variant_collection =
     \<lparr>query_embeddings = (\<lambda>q n. if q = lit ''q'' then Inr q_semantic else Inr r_semantic),
      query_texts = (\<lambda>q n. if q = lit ''q'' then Inr q_keyword else Inr r_keyword)\<rparr>"

definition two_variant_retriever :: retriever where
  "two_variant_retriever =
     \<lparr>chroma_manager = two_variant_collection,
      expand_query = (\<lambda>q. [q, lit ''r'']),
      top_k = 8, similarity_threshold = 0.3, use_hybrid = True,
      semantic_weight = 0.7, keyword_weight = 0.3\<rparr>"

text \<open>The same collection, except that the query by embedding raises for the variation \<open>r\<close>.\<close>

definition failing_collection :: collection where
  "failing_collection =
     \<lparr>query_embeddings = (\<lambda>q n.
         if q = lit ''q'' then Inr q_semantic else Inl (ExternalError ''index unavailable'')),
      query_texts = (\<lambda>q n. if q = lit ''q'' then Inr q_keyword else Inr r_keyword)\<rparr>"

definition failing_retriever :: retriever where
  "failing_retriever = two_variant_retriever\<lparr>chroma_manager := failing_collection\<rparr>"

text \<open>
  The result dictionaries built from these hits: by \<open>search\<close> for \<open>b\<close>, \<open>c\<close> and the
  two semantic hits of \<open>a\<close>, and by the keyword branch of \<open>hybrid_search\<close> for \<open>k\<close>.
\<close>

definition cand_b :: candidate where
  "cand_b = \<lparr>cand_id = ''b'', cand_text = lit ''beta'', cand_metadata = [],
     distance = Some 0.5, similarity = Val 0.5\<rparr>"

definition cand_c :: candidate where
  "cand_c = \<lparr>cand_id = ''c'', cand_text = lit ''gamma'', cand_metadata = [],
     distance = Some 0.55, similarity = Val 0.45\<rparr>"

definition cand_a1 :: candidate where
  "cand_a1 = \<lparr>cand_id = ''a'', cand_text = lit ''alpha'', cand_metadata = [],
     distance = Some 0.6, similarity = Val 0.4\<rparr>"

definition cand_a2 :: candidate where
  "cand_a2 = \<lparr>cand_id = ''a'', cand_text = lit ''alpha'', cand_metadata = [],
     distance = Some 0.1, similarity = Val 0.9\<rparr>"

definition cand_k :: candidate where
  "cand_k = \<lparr>cand_id = ''k'', cand_text = lit ''kappa'', cand_metadata = [],
     distance = Some 0.05, similarity = NoKey\<rparr>"


text \<open>Candidates for deduplication: a text prefix of 100 characters shared by two texts.\<close>

definition prefix_a :: pystr where
  "prefix_a = replicate 100 97"

definition dup_candidates :: "candidate list" where
  "dup_candidates =
     [\<lparr>cand_id = ''x'', cand_text = prefix_a @ lit ''one'', cand_metadata = [],
       distance = Some 0.1, similarity = Val 0.9\<rparr>,
      cand_b,
      \<lparr>cand_id = ''y'', cand_text = prefix_a @ lit ''two'', cand_metadata = [],
       distance = Some 0.2, similarity = Val 0.8\<rparr>,
      cand_b]"

section \<open>Properties of the chunker\<close>

subsection \<open>Splitting and joining words\<close>

lemma split_aux_good:
  "(\<forall>c\<in>set w. \<not> isspace c) \<Longrightarrow> v \<in> set (split_aux w s) \<Longrightarrow> good_word v"
proof (induction w s rule: split_aux.induct)
  case (1 w)
  then show ?case by (simp add: good_word_def split: if_splits)
next
  case (2 w c cs)
  show ?case
  proof (cases "isspace c")
    case True
    with 2 show ?thesis by (cases "w = []") (auto simp: good_word_def)
  next
    case False
    with 2 show ?thesis by simp
  qed
qed

lemma py_split_good: "v \<in> set (py_split s) \<Longrightarrow> good_word v"
  unfolding py_split_def using split_aux_good[of "[]"] by simp

lemma split_aux_word:
  "(\<forall>c\<in>set v. \<not> isspace c) \<Longrightarrow> split_aux w (v @ s) = split_aux (w @ v) s"
  by (induction v arbitrary: w) simp_all

lemma isspace_32: "isspace 32"
  by (simp add: isspace_def)

lemma split_join:
  "(\<forall>w\<in>set ws. good_word w) \<Longrightarrow> py_split (py_join ws) = ws"
proof (induction ws rule: py_join.induct)
  case 1
  then show ?case by (simp add: py_split_def)
next
  case (2 w)
  then have "split_aux [] (w @ []) = split_aux ([] @ w) []"
    by (intro split_aux_word) (simp add: good_word_def)
  with 2 show ?case by (simp add: py_split_def good_word_def)
next
  case (3 w v ws)
  then have g: "good_word w" and ih: "py_split (py_join (v # ws)) = v # ws" by simp_all
  have "split_aux [] (w @ 32 # py_join (v # ws)) = split_aux ([] @ w) (32 # py_join (v # ws))"
    using g by (intro split_aux_word) (simp add: good_word_def)
  then show ?case using g ih by (simp add: py_split_def good_word_def isspace_32)
qed

lemma py_split_word: "w \<noteq> [] \<Longrightarrow> (\<forall>c\<in>set w. \<not> isspace c) \<Longrightarrow> py_split w = [w]"
  using split_aux_word[of w "[]" "[]"] by (simp add: py_split_def)

lemma py_strip_empty_iff: "py_strip s = [] \<longleftrightarrow> (\<forall>c\<in>set s. isspace c)"
proof
  assume "py_strip s = []"
  then have a: "\<forall>x\<in>set (dropWhile isspace s). isspace x"
    by (simp add: py_strip_def)
  have "dropWhile isspace s = []"
  proof (rule ccontr)
    assume n: "dropWhile isspace s \<noteq> []"
    then have "\<not> isspace (hd (dropWhile isspace s))" by (rule hd_dropWhile)
    moreover have "hd (dropWhile isspace s) \<in> set (dropWhile isspace s)" using n by simp
    ultimately show False using a by blast
  qed
  then show "\<forall>c\<in>set s. isspace c" by simp
next
  assume "\<forall>c\<in>set s. isspace c"
  then have d: "dropWhile isspace s = []" by simp
  show "py_strip s = []" unfolding py_strip_def d by simp
qed

lemma py_strip_word: "(\<forall>c\<in>set w. \<not> isspace c) \<Longrightarrow> py_strip w = w"
proof -
  assume a: "\<forall>c\<in>set w. \<not> isspace c"
  then have "dropWhile isspace w = w" by (cases w) simp_all
  moreover from a have "dropWhile isspace (rev w) = rev w"
    by (cases "rev w") (simp, metis dropWhile_eq_self_iff hd_in_set list.distinct(1) set_rev)
  ultimately show ?thesis by (simp add: py_strip_def)
qed

subsection \<open>The invariant of the packing loop\<close>

lemma pack_inv_init: "pack_inv init_state"
  by (simp add: pack_inv_def init_state_def)

lemma seal_word_count:
  assumes "pack_inv st"
  shows "int (length (py_split (chunk_text (seal md st)))) = word_count (seal md st)"
  using assms by (simp add: seal_def pack_inv_def split_join)

lemma pack_inv_add_sentence:
  assumes "pack_inv st"
  shows "pack_inv (add_sentence cfg md st s)"
proof -
  have sw: "\<forall>w\<in>set (py_split s). good_word w"
    using py_split_good by blast
  have ov: "\<forall>w\<in>set (py_split (overlap_text cfg (current_chunk st))). good_word w"
    using py_split_good by blast
  show ?thesis
    using assms sw ov seal_word_count[OF assms, of md]
    by (auto simp: add_sentence_def Let_def pack_inv_def)
qed

lemma pack_inv_pack_sentences:
  "pack_inv st \<Longrightarrow> pack_inv (pack_sentences cfg md st ss)"
  by (induction ss arbitrary: st) (simp_all add: pack_inv_add_sentence)

lemma finish_word_count:
  assumes "pack_inv st" and "c \<in> set (finish cfg md st)"
  shows "int (length (py_split (chunk_text c))) = word_count c"
  using assms seal_word_count[OF assms(1), of md]
  by (auto simp: finish_def pack_inv_def split: if_splits)

lemma create_chunks_word_count:
  assumes "c \<in> set (create_chunks cfg txt md)"
  shows "int (length (py_split (chunk_text c))) = word_count c"
  using assms finish_word_count[OF pack_inv_pack_sentences[OF pack_inv_init]]
  by (auto simp: create_chunks_def split: if_splits)

lemma length_reindex: "length (reindex cs) = length cs"
  by (simp add: reindex_def)

lemma reindex_nth:
  "i < length cs \<Longrightarrow> reindex cs ! i = (cs ! i)\<lparr>chunk_id := int i\<rparr>"
  by (simp add: reindex_def nth_enumerate_eq)

lemma reindex_mem:
  assumes "c \<in> set (reindex cs)"
  shows "\<exists>d\<in>set cs. chunk_text c = chunk_text d \<and> word_count c = word_count d
           \<and> metadata c = metadata d"
  using assms by (auto simp: reindex_def in_set_enumerate_eq)

lemma page_chunks_word_count:
  assumes "c \<in> set (page_chunks cfg dm p)"
  shows "int (length (py_split (chunk_text c))) = word_count c"
  using assms create_chunks_word_count
  by (auto simp: page_chunks_def Let_def split: if_splits)

subsection \<open>The scenario input, evaluated\<close>

lemma scenario_sentences: "split_into_sentences scenario_text = scenario_words"
  by (simp add: split_into_sentences_def scenario_text_def scenario_words_def lit_def
      py_strip_def isspace_def is_terminal_def)

lemma scenario_strip: "py_strip scenario_text \<noteq> []"
  by (simp add: scenario_text_def lit_def py_strip_def isspace_def)

lemma scenario_chunks:
  "create_chunks scenario_config scenario_text md =
    [\<lparr>chunk_id = 0, chunk_text = lit ''a. b. c. d. e. f. g. h. i. j.'', word_count = 10,
      metadata = md_or_empty md\<rparr>,
     \<lparr>chunk_id = 1, chunk_text = lit ''h. i. j. k. l. m. n. o.'', word_count = 8,
      metadata = md_or_empty md\<rparr>]"
  unfolding create_chunks_def scenario_sentences
  by (simp add: scenario_strip scenario_words_def scenario_config_def init_state_def
      add_sentence_def finish_def seal_def overlap_text_def py_slice_from_def
      py_split_def lit_def isspace_def Let_def)

lemma scenario_page_chunks:
  "page_chunks scenario_config None scenario_page =
     create_chunks scenario_config scenario_text (Some (chunk_metadata None scenario_page))"
  by (simp add: page_chunks_def page_text_or_empty_def scenario_page_def scenario_strip)

subsection \<open>Word counts\<close>

text \<open>
  Claim C4. Every chunk that \<open>create_chunks\<close> returns, and every chunk that
  \<open>chunk_document_pages\<close> returns, has a \<open>word_count\<close> equal to the number of words
  \<open>split()\<close> finds in its text; this covers the chunks whose buffer was seeded with
  overlap words, for every text, metadata and configuration.
\<close>

theorem word_count_is_split_length:
  "(\<forall>c\<in>set (create_chunks cfg txt md).
      int (length (py_split (chunk_text c))) = word_count c) \<and>
   (\<forall>c\<in>set (chunk_document_pages cfg pages dm).
      int (length (py_split (chunk_text c))) = word_count c)"
proof (intro conjI ballI)
  fix c assume "c \<in> set (create_chunks cfg txt md)"
  then show "int (length (py_split (chunk_text c))) = word_count c"
    by (rule create_chunks_word_count)
next
  fix c assume "c \<in> set (chunk_document_pages cfg pages dm)"
  then obtain d where d: "d \<in> set (concat (map (page_chunks cfg dm) pages))"
    and eq: "chunk_text c = chunk_text d" "word_count c = word_count d"
    unfolding chunk_document_pages_def using reindex_mem by blast
  from d obtain p where "d \<in> set (page_chunks cfg dm p)" by auto
  then have "int (length (py_split (chunk_text d))) = word_count d"
    by (rule page_chunks_word_count)
  with eq show "int (length (py_split (chunk_text c))) = word_count c" by simp
qed

text \<open>
  In the fifteen-sentence scenario the second chunk, seeded with three overlap words, has
  a \<open>word_count\<close> equal to the number of its words; so has the last chunk of a document
  of two such pages.
\<close>

theorem word_count_is_split_length_witness:
  "length (create_chunks scenario_config scenario_text None) = 2 \<and>
   int (length (py_split (chunk_text (create_chunks scenario_config scenario_text None ! 1))))
     = word_count (create_chunks scenario_config scenario_text None ! 1) \<and>
   length (chunk_document_pages scenario_config [scenario_page, scenario_page] None) = 4 \<and>
   int (length (py_split (chunk_text
       (chunk_document_pages scenario_config [scenario_page, scenario_page] None ! 3))))
     = word_count (chunk_document_pages scenario_config [scenario_page, scenario_page] None ! 3)"
proof -
  let ?cs = "create_chunks scenario_config scenario_text None"
  let ?ds = "chunk_document_pages scenario_config [scenario_page, scenario_page] None"
  have l1: "length ?cs = 2" by (simp add: scenario_chunks)
  have l2: "length ?ds = 4"
    by (simp add: chunk_document_pages_def length_reindex scenario_page_chunks scenario_chunks)
  have m1: "?cs ! 1 \<in> set ?cs" using l1 by (intro nth_mem) simp
  have m2: "?ds ! 3 \<in> set ?ds" using l2 by (intro nth_mem) simp
  show ?thesis
    using word_count_is_split_length
      [of scenario_config scenario_text None "[scenario_page, scenario_page]" None]
      l1 l2 m1 m2
    by blast
qed

subsection \<open>The fifteen-sentence scenario\<close>

lemma re_split_word:
  "(\<forall>c\<in>set v. \<not> isspace c) \<Longrightarrow>
     re_split_sentences cur (v @ s) = re_split_sentences (cur @ v) s"
  by (induction v arbitrary: cur) simp_all

lemma dropWhile_py_join:
  "v \<noteq> [] \<Longrightarrow> \<not> isspace (hd v) \<Longrightarrow> dropWhile isspace (py_join (v # ws)) = py_join (v # ws)"
  by (cases v; cases ws) simp_all

lemma re_split_join:
  "ws \<noteq> [] \<Longrightarrow> (\<forall>w\<in>set ws. one_word_sentence w) \<Longrightarrow>
     re_split_sentences [] (py_join ws) = ws"
proof (induction ws rule: py_join.induct)
  case 1
  then show ?case by simp
next
  case (2 w)
  then have "re_split_sentences [] (w @ []) = re_split_sentences ([] @ w) []"
    by (intro re_split_word) (simp add: one_word_sentence_def)
  then show ?case by simp
next
  case (3 w v ws)
  have w: "one_word_sentence w" and v: "one_word_sentence v" using 3 by simp_all
  have ih: "re_split_sentences [] (py_join (v # ws)) = v # ws" using 3 by simp
  have "re_split_sentences [] (w @ 32 # py_join (v # ws))
        = re_split_sentences ([] @ w) (32 # py_join (v # ws))"
    using w by (intro re_split_word) (simp add: one_word_sentence_def)
  also have "\<dots> = w # re_split_sentences [] (dropWhile isspace (py_join (v # ws)))"
    using w by (simp add: one_word_sentence_def isspace_32 is_terminal_def)
  also have "dropWhile isspace (py_join (v # ws)) = py_join (v # ws)"
    using v by (intro dropWhile_py_join) (auto simp: one_word_sentence_def)
  finally show ?case using ih by simp
qed

lemma split_into_sentences_join:
  assumes "ws \<noteq> []" "\<forall>w\<in>set ws. one_word_sentence w"
  shows "split_into_sentences (py_join ws) = ws"
proof -
  have "\<forall>w\<in>set ws. py_strip w = w \<and> w \<noteq> []"
    using assms(2) py_strip_word by (auto simp: one_word_sentence_def)
  then have "map py_strip (filter (\<lambda>s. py_strip s \<noteq> []) ws) = ws"
    by (induction ws) auto
  then show ?thesis by (simp add: split_into_sentences_def re_split_join[OF assms])
qed

lemma list15:
  assumes "length ws = 15"
  obtains a b c d e f g h i j k l m n p where "ws = [a,b,c,d,e,f,g,h,i,j,k,l,m,n,p]"
proof -
  from assms have "\<exists>a b c d e f g h i j k l m n p. ws = [a,b,c,d,e,f,g,h,i,j,k,l,m,n,p]"
    by (simp add: eval_nat_numeral length_Suc_conv) blast
  then show ?thesis using that by blast
qed

lemma add_sentence_word:
  assumes "one_word_sentence w"
  shows "add_sentence cfg md st w =
     (let st1 =
            (if current_word_count st + 1 > chunk_size_words cfg \<and> current_chunk st \<noteq> []
             then
               (let cur = py_split (overlap_text cfg (current_chunk st))
                in \<lparr>chunks = chunks st @ [seal md st],
                    current_chunk = cur,
                    current_word_count = int (length cur),
                    chunk_index = chunk_index st + 1\<rparr>)
             else st)
      in st1\<lparr>current_chunk := current_chunk st1 @ [w],
             current_word_count := current_word_count st1 + 1\<rparr>)"
proof -
  have "py_split w = [w]"
    using assms by (intro py_split_word) (simp_all add: one_word_sentence_def)
  then show ?thesis by (simp add: add_sentence_def Let_def)
qed

text \<open>
  Claim C5. With \<open>chunk_size_words = 10\<close>, \<open>overlap_words = 3\<close> and \<open>min_chunk_size = 5\<close>,
  a text of fifteen one-word sentences, each ending in a full stop and separated by a
  space, gives exactly two chunks: the first holds the first ten words (\<open>word_count\<close>
  10), the second the last three words of the first followed by the remaining five
  (\<open>word_count\<close> 8, kept since 8 is at least the minimum).
\<close>

theorem fifteen_sentences_two_chunks:
  assumes "length ws = 15" and "\<forall>w\<in>set ws. one_word_sentence w"
  shows "create_chunks scenario_config (py_join ws) md =
    [\<lparr>chunk_id = 0, chunk_text = py_join (take 10 ws), word_count = 10,
      metadata = md_or_empty md\<rparr>,
     \<lparr>chunk_id = 1, chunk_text = py_join (drop 7 (take 10 ws) @ drop 10 ws), word_count = 8,
      metadata = md_or_empty md\<rparr>]"
proof -
  from assms(1) obtain a b c d e f g h i j k l m n p
    where ws: "ws = [a,b,c,d,e,f,g,h,i,j,k,l,m,n,p]" by (rule list15)
  have ne: "ws \<noteq> []" using ws by simp
  have sent: "split_into_sentences (py_join ws) = ws"
    using ne assms(2) by (rule split_into_sentences_join)
  have ow: "one_word_sentence a" "one_word_sentence b" "one_word_sentence c" "one_word_sentence d"
    "one_word_sentence e" "one_word_sentence f" "one_word_sentence g" "one_word_sentence h"
    "one_word_sentence i" "one_word_sentence j" "one_word_sentence k" "one_word_sentence l"
    "one_word_sentence m" "one_word_sentence n" "one_word_sentence p"
    using assms(2) ws by simp_all
  have gw: "\<forall>w\<in>set [h, i, j]. good_word w"
    using ow by (simp add: one_word_sentence_def good_word_def)
  have ov: "py_split (py_join [h, i, j]) = [h, i, j]"
    using gw by (rule split_join)
  have "a \<noteq> []" "\<forall>c\<in>set a. \<not> isspace c"
    using ow(1) by (simp_all add: one_word_sentence_def)
  then have "hd a \<in> set (py_join ws)" "\<not> isspace (hd a)"
    unfolding ws by (cases a; simp)+
  then have strip: "py_strip (py_join ws) \<noteq> []"
    unfolding py_strip_empty_iff by blast
  have pack: "pack_sentences scenario_config md init_state ws =
     \<lparr>chunks = [\<lparr>chunk_id = 0, chunk_text = py_join [a,b,c,d,e,f,g,h,i,j], word_count = 10,
                 metadata = md_or_empty md\<rparr>],
      current_chunk = [h,i,j,k,l,m,n,p], current_word_count = 8, chunk_index = 1\<rparr>"
    unfolding ws
    by (simp add: add_sentence_word ow init_state_def scenario_config_def seal_def
        overlap_text_def py_slice_from_def ov Let_def del: py_join.simps)
  show ?thesis
    unfolding create_chunks_def sent pack
    using strip by (simp add: finish_def seal_def scenario_config_def ws del: py_join.simps)
qed

text \<open>The scenario for the sentences \<open>a.\<close> to \<open>o.\<close>\<close>

theorem fifteen_sentences_two_chunks_witness:
  "length scenario_words = 15 \<and> list_all one_word_sentence scenario_words \<and>
   py_join scenario_words = lit ''a. b. c. d. e. f. g. h. i. j. k. l. m. n. o.'' \<and>
   create_chunks scenario_config (py_join scenario_words) None =
    [\<lparr>chunk_id = 0, chunk_text = lit ''a. b. c. d. e. f. g. h. i. j.'', word_count = 10,
      metadata = []\<rparr>,
     \<lparr>chunk_id = 1, chunk_text = lit ''h. i. j. k. l. m. n. o.'', word_count = 8,
      metadata = []\<rparr>]"
proof -
  have l: "length scenario_words = 15" by (simp add: scenario_words_def)
  have o: "list_all one_word_sentence scenario_words"
    by (simp add: scenario_words_def lit_def one_word_sentence_def isspace_def)
  then have o': "\<forall>w\<in>set scenario_words. one_word_sentence w" by (simp add: list_all_iff)
  have t: "py_join scenario_words = lit ''a. b. c. d. e. f. g. h. i. j. k. l. m. n. o.''"
    by (simp add: scenario_words_def lit_def)
  have a: "py_join (take 10 scenario_words) = lit ''a. b. c. d. e. f. g. h. i. j.''"
    by (simp add: scenario_words_def lit_def)
  have b: "py_join (drop 7 (take 10 scenario_words) @ drop 10 scenario_words)
             = lit ''h. i. j. k. l. m. n. o.''"
    by (simp add: scenario_words_def lit_def)
  show ?thesis
    using fifteen_sentences_two_chunks[OF l o', of None] l o t
    by (simp only: a b md_or_empty_def option.case)
qed

subsection \<open>The tail at input exhaustion\<close>

lemma re_split_blank:
  "(\<forall>c\<in>set cur. isspace c) \<Longrightarrow> (\<forall>c\<in>set s. isspace c) \<Longrightarrow>
     re_split_sentences cur s = [cur @ s]"
proof (induction s arbitrary: cur)
  case Nil
  then show ?case by simp
next
  case (Cons c cs)
  have "cur \<noteq> [] \<Longrightarrow> \<not> is_terminal (last cur)"
  proof -
    assume "cur \<noteq> []"
    then have "isspace (last cur)" using Cons.prems(1) by simp
    then show ?thesis by (auto simp: isspace_def is_terminal_def)
  qed
  then have "re_split_sentences cur (c # cs) = re_split_sentences (cur @ [c]) cs"
    by auto
  also have "\<dots> = [(cur @ [c]) @ cs]"
    using Cons.prems by (intro Cons.IH) auto
  finally show ?case by simp
qed

lemma blank_no_sentences:
  assumes "py_strip s = []"
  shows "split_into_sentences s = []"
proof -
  have b: "\<forall>c\<in>set s. isspace c" using assms by (simp add: py_strip_empty_iff)
  then have "re_split_sentences [] s = [s]" using re_split_blank[of "[]" s] by simp
  then show ?thesis using assms by (simp add: split_into_sentences_def)
qed

lemma add_sentence_min_irrelevant:
  "add_sentence (cfg\<lparr>min_chunk_size := m\<rparr>) md st s = add_sentence cfg md st s"
  by (simp add: add_sentence_def overlap_text_def Let_def)

lemma pack_min_irrelevant:
  "pack_sentences (cfg\<lparr>min_chunk_size := m\<rparr>) md st ss = pack_sentences cfg md st ss"
  by (induction ss arbitrary: st) (simp_all add: add_sentence_min_irrelevant)

lemma scenario_pack:
  "pack_sentences short_tail_config None init_state (split_into_sentences scenario_text) =
     \<lparr>chunks = [\<lparr>chunk_id = 0, chunk_text = lit ''a. b. c. d. e. f. g. h. i. j.'',
                 word_count = 10, metadata = []\<rparr>],
      current_chunk = map lit [''h.'', ''i.'', ''j.'', ''k.'', ''l.'', ''m.'', ''n.'', ''o.''],
      current_word_count = 8, chunk_index = 1\<rparr>"
  unfolding scenario_sentences
  by (simp add: scenario_words_def short_tail_config_def init_state_def
      add_sentence_def seal_def overlap_text_def py_slice_from_def md_or_empty_def
      py_split_def lit_def isspace_def Let_def)

text \<open>
  Claim C6. When the sentences are exhausted, \<open>create_chunks\<close> returns the chunks sealed
  during the loop, followed by one more chunk made of the remaining buffer exactly when
  the buffer is non-empty and holds at least \<open>min_chunk_size\<close> words. Otherwise the result
  is the sealed chunks alone: the buffer is dropped, and the sealed chunks are the same
  whatever \<open>min_chunk_size\<close> is, so nothing of the tail is merged into the previous chunk.
\<close>

theorem short_tail_dropped:
  "create_chunks cfg txt md =
     (let st = pack_sentences cfg md init_state (split_into_sentences txt);
          buffer = current_chunk st
      in if buffer \<noteq> [] \<and> int (length buffer) \<ge> min_chunk_size cfg
         then chunks st @
              [\<lparr>chunk_id = int (length (chunks st)), chunk_text = py_join buffer,
                word_count = int (length buffer), metadata = md_or_empty md\<rparr>]
         else chunks st) \<and>
   chunks (pack_sentences (cfg\<lparr>min_chunk_size := m\<rparr>) md init_state (split_into_sentences txt))
     = chunks (pack_sentences cfg md init_state (split_into_sentences txt))"
proof (rule conjI)
  let ?st = "pack_sentences cfg md init_state (split_into_sentences txt)"
  have inv: "pack_inv ?st" by (intro pack_inv_pack_sentences pack_inv_init)
  then have cnt: "current_word_count ?st = int (length (current_chunk ?st))"
    and idx: "chunk_index ?st = int (length (chunks ?st))"
    by (simp_all add: pack_inv_def)
  show "create_chunks cfg txt md =
     (let st = ?st; buffer = current_chunk st
      in if buffer \<noteq> [] \<and> int (length buffer) \<ge> min_chunk_size cfg
         then chunks st @
              [\<lparr>chunk_id = int (length (chunks st)), chunk_text = py_join buffer,
                word_count = int (length buffer), metadata = md_or_empty md\<rparr>]
         else chunks st)"
  proof (cases "py_strip txt = []")
    case True
    then show ?thesis
      by (simp add: create_chunks_def blank_no_sentences init_state_def)
  next
    case False
    then show ?thesis
      by (simp add: create_chunks_def finish_def seal_def cnt idx Let_def)
  qed
  show "chunks (pack_sentences (cfg\<lparr>min_chunk_size := m\<rparr>) md init_state (split_into_sentences txt))
     = chunks ?st"
    by (simp add: pack_min_irrelevant)
qed

text \<open>
  In the scenario with \<open>min_chunk_size = 9\<close> the eight-word tail is dropped: only the
  first chunk is returned, with its ten words.
\<close>

theorem short_tail_dropped_witness:
  "create_chunks short_tail_config scenario_text None =
     [\<lparr>chunk_id = 0, chunk_text = lit ''a. b. c. d. e. f. g. h. i. j.'', word_count = 10,
       metadata = []\<rparr>]"
  using short_tail_dropped[of short_tail_config scenario_text None 0]
  by (simp add: scenario_pack) (simp add: short_tail_config_def)

subsection \<open>Pages\<close>

lemma page_chunks_eq:
  "page_chunks cfg dm p = create_chunks cfg (page_text_or_empty p) (Some (chunk_metadata dm p))"
  by (simp add: page_chunks_def create_chunks_def Let_def)

lemma map_chunk_id_reindex: "map chunk_id (reindex cs) = map int [0..<length cs]"
  by (rule nth_equalityI) (simp_all add: length_reindex reindex_nth)

lemma map_content_reindex: "map content (reindex cs) = map content cs"
  by (rule nth_equalityI) (simp_all add: length_reindex reindex_nth content_def)

text \<open>
  Claim C7. The chunks that \<open>chunk_document_pages\<close> returns carry the ids 0, 1, ...,
  n - 1 in order, and without their ids they are the chunks that \<open>create_chunks\<close> makes
  of each page's own text, page after page and in the order \<open>create_chunks\<close> produced
  them within a page; so the text of a chunk comes from one page only.
\<close>

theorem pages_chunked_independently_ids_sequential:
  "map chunk_id (chunk_document_pages cfg pages dm)
     = map int [0..<length (chunk_document_pages cfg pages dm)] \<and>
   map content (chunk_document_pages cfg pages dm)
     = concat (map (\<lambda>p. map content
         (create_chunks cfg (page_text_or_empty p) (Some (chunk_metadata dm p)))) pages)"
  by (simp add: chunk_document_pages_def map_chunk_id_reindex length_reindex
      map_content_reindex map_concat comp_def page_chunks_eq)

text \<open>
  A document of two pages with the scenario text: each page gives the two chunks of the
  scenario, and the four chunks are numbered 0 to 3.
\<close>

theorem pages_chunked_independently_ids_sequential_witness:
  "map chunk_id (chunk_document_pages scenario_config [scenario_page, scenario_page] None)
     = [0, 1, 2, 3] \<and>
   map chunk_text (chunk_document_pages scenario_config [scenario_page, scenario_page] None)
     = [lit ''a. b. c. d. e. f. g. h. i. j.'', lit ''h. i. j. k. l. m. n. o.'',
        lit ''a. b. c. d. e. f. g. h. i. j.'', lit ''h. i. j. k. l. m. n. o.'']"
proof -
  let ?ds = "chunk_document_pages scenario_config [scenario_page, scenario_page] None"
  note t = pages_chunked_independently_ids_sequential
    [of scenario_config "[scenario_page, scenario_page]" None]
  have pt: "page_text_or_empty scenario_page = scenario_text"
    by (simp add: page_text_or_empty_def scenario_page_def)
  have l: "length ?ds = 4"
    by (simp add: chunk_document_pages_def length_reindex scenario_page_chunks scenario_chunks)
  have u: "[0..<4] = [0, 1, 2, 3::nat]" by code_simp
  have ids: "map chunk_id ?ds = [0, 1, 2, 3]"
    using t[THEN conjunct1] unfolding l u by simp
  have "map content ?ds = concat (map (\<lambda>p. map content
         (create_chunks scenario_config (page_text_or_empty p)
            (Some (chunk_metadata None p)))) [scenario_page, scenario_page])"
    using t by (rule conjunct2)
  then have "map (fst \<circ> content) ?ds
     = [lit ''a. b. c. d. e. f. g. h. i. j.'', lit ''h. i. j. k. l. m. n. o.'',
        lit ''a. b. c. d. e. f. g. h. i. j.'', lit ''h. i. j. k. l. m. n. o.'']"
    unfolding map_map[symmetric] by (simp add: pt scenario_chunks content_def)
  moreover have "fst \<circ> content = chunk_text" by (rule ext) (simp add: content_def)
  ultimately show ?thesis using ids by simp
qed

section \<open>Properties of deduplication\<close>


lemma dedup_loop_index:
  "dedup_loop seen xs =
     map (nth xs) (filter (\<lambda>i. fingerprint (xs ! i) \<notin> seen \<union> fingerprint ` set (take i xs))
        [0..<length xs])"
proof (induction xs arbitrary: seen)
  case Nil
  then show ?case by simp
next
  case (Cons x xs)
  define P where "P = (\<lambda>s ys i. fingerprint (ys ! i) \<notin> s \<union> fingerprint ` set (take i ys))"
  have up: "[0..<length (x # xs)] = 0 # map Suc [0..<length xs]"
    by (simp add: upt_conv_Cons map_Suc_upt del: upt_Suc)
  have shift: "map (nth (x # xs)) (filter (P seen (x # xs)) (map Suc [0..<length xs]))
      = map (nth xs) (filter (P (insert (fingerprint x) seen) xs) [0..<length xs])"
    by (simp add: P_def filter_map comp_def conj_ac)
  have P0: "P seen (x # xs) 0 \<longleftrightarrow> fingerprint x \<notin> seen" by (simp add: P_def)
  have rhs: "map (nth (x # xs)) (filter (P seen (x # xs)) [0..<length (x # xs)])
      = (if fingerprint x \<notin> seen then [x] else [])
        @ map (nth xs) (filter (P (insert (fingerprint x) seen) xs) [0..<length xs])"
    unfolding up filter.simps P0 using shift by (simp del: map_map filter_map)
  have ih: "dedup_loop s xs = map (nth xs) (filter (P s xs) [0..<length xs])" for s
    unfolding P_def by (rule Cons.IH)
  have "dedup_loop seen (x # xs) = map (nth (x # xs)) (filter (P seen (x # xs)) [0..<length (x # xs)])"
  proof (cases "fingerprint x \<in> seen")
    case True
    then have "insert (fingerprint x) seen = seen" by (rule insert_absorb)
    then show ?thesis unfolding rhs using True ih[of seen] by simp
  next
    case False
    then show ?thesis unfolding rhs using ih[of "insert (fingerprint x) seen"] by simp
  qed
  then show ?case unfolding P_def .
qed

lemma dedup_loop_length: "length (dedup_loop seen xs) \<le> length xs"
  by (induction xs arbitrary: seen) (simp_all add: le_SucI)

lemma dedup_loop_fresh:
  "fingerprint ` set (dedup_loop seen xs) \<inter> seen = {}"
  by (induction xs arbitrary: seen) auto

lemma dedup_loop_distinct:
  "distinct (map fingerprint (dedup_loop seen xs))"
proof (induction xs arbitrary: seen)
  case Nil
  then show ?case by simp
next
  case (Cons x xs)
  show ?case
    using Cons.IH dedup_loop_fresh[of "insert (fingerprint x) seen" xs]
    by auto
qed

lemma dedup_loop_id:
  "distinct (map fingerprint ys) \<Longrightarrow> fingerprint ` set ys \<inter> seen = {} \<Longrightarrow>
     dedup_loop seen ys = ys"
  by (induction ys arbitrary: seen) auto

text \<open>
  Claim C8. \<open>deduplicate_results\<close> keeps, in input order, exactly the candidates whose
  100-character text prefix does not occur at an earlier position of the input (the
  first candidate of each distinct prefix); it is idempotent and never lengthens the list.
\<close>

theorem dedupe_keeps_first_of_each_prefix:
  "deduplicate_results X = map (nth X) (filter (first_seen X) [0..<length X]) \<and>
   deduplicate_results (deduplicate_results X) = deduplicate_results X \<and>
   length (deduplicate_results X) \<le> length X"
proof (intro conjI)
  show "deduplicate_results X = map (nth X) (filter (first_seen X) [0..<length X])"
    unfolding deduplicate_results_def dedup_loop_index first_seen_def by simp
  show "deduplicate_results (deduplicate_results X) = deduplicate_results X"
    unfolding deduplicate_results_def
    by (intro dedup_loop_id dedup_loop_distinct) simp
  show "length (deduplicate_results X) \<le> length X"
    unfolding deduplicate_results_def by (rule dedup_loop_length)
qed

lemma fp_dup:
  "map fingerprint dup_candidates = [prefix_a, lit ''beta'', prefix_a, lit ''beta'']"
  by (simp add: dup_candidates_def fingerprint_def prefix_a_def cand_b_def lit_def)

lemma prefix_ne: "prefix_a \<noteq> lit ''beta''"
proof
  assume "prefix_a = lit ''beta''"
  then have "length prefix_a = length (lit ''beta'')" by simp
  then show False by (simp add: prefix_a_def lit_def)
qed

text \<open>
  Four candidates: the first and the third have texts that agree in their first 100
  characters and differ after them, the second and the fourth are the same candidate.
  The first two are kept, in order.
\<close>

theorem dedupe_keeps_first_of_each_prefix_witness:
  "deduplicate_results dup_candidates = [dup_candidates ! 0, dup_candidates ! 1] \<and>
   fingerprint (dup_candidates ! 2) = fingerprint (dup_candidates ! 0) \<and>
   dup_candidates ! 2 \<noteq> dup_candidates ! 0 \<and>
   deduplicate_results (deduplicate_results dup_candidates) = deduplicate_results dup_candidates \<and>
   length (deduplicate_results dup_candidates) \<le> length dup_candidates"
proof -
  have len: "length dup_candidates = 4" by (simp add: dup_candidates_def)
  have u: "[0..<4] = [0, 1, 2, 3::nat]" by code_simp
  have nth: "fingerprint (dup_candidates ! 0) = prefix_a"
    "fingerprint (dup_candidates ! 1) = lit ''beta''"
    "fingerprint (dup_candidates ! 2) = prefix_a"
    "fingerprint (dup_candidates ! 3) = lit ''beta''"
    using fp_dup by (simp_all add: dup_candidates_def)
  have tk: "fingerprint ` set (take 0 dup_candidates) = {}"
    "fingerprint ` set (take 1 dup_candidates) = {prefix_a}"
    "fingerprint ` set (take 2 dup_candidates) = {prefix_a, lit ''beta''}"
    "fingerprint ` set (take 3 dup_candidates) = {prefix_a, lit ''beta''}"
    using nth by (auto simp: dup_candidates_def)
  have f: "first_seen dup_candidates 0" "first_seen dup_candidates 1"
    "\<not> first_seen dup_candidates 2" "\<not> first_seen dup_candidates 3"
    unfolding first_seen_def nth tk using prefix_ne by simp_all
  have fs: "filter (first_seen dup_candidates) [0..<4] = [0, 1]"
    unfolding u using f by simp
  have ne: "dup_candidates ! 2 \<noteq> dup_candidates ! 0"
    by (simp add: dup_candidates_def)
  note t = dedupe_keeps_first_of_each_prefix[of dup_candidates]
  have a: "deduplicate_results dup_candidates = [dup_candidates ! 0, dup_candidates ! 1]"
    using t unfolding len fs by simp
  have b: "deduplicate_results (deduplicate_results dup_candidates)
      = deduplicate_results dup_candidates"
    using t by (rule conjunct2[THEN conjunct1])
  have c: "length (deduplicate_results dup_candidates) \<le> length dup_candidates"
    using t by (rule conjunct2[THEN conjunct2])
  have d: "fingerprint (dup_candidates ! 2) = fingerprint (dup_candidates ! 0)"
    using nth by simp
  from a d ne b c show ?thesis by (intro conjI)
qed

section \<open>Properties of score fusion\<close>


lemma map_of_dict_set: "map_of (dict_set k v d) k' = (if k' = k then Some v else map_of d k')"
  by (induction d) auto

lemma dict_set_keys: "set (map fst (dict_set k v d)) = insert k (set (map fst d))"
  by (induction d) auto

lemma sem_fold_other:
  "d \<notin> cand_id ` set xs \<Longrightarrow>
   map_of (fold (\<lambda>(i, r) rs. dict_set (cand_id r) (r, val i) rs) (enumerate i0 xs) acc) d
     = map_of acc d"
  by (induction xs arbitrary: i0 acc) (simp_all add: map_of_dict_set)

lemma sem_fold_at:
  "distinct (map cand_id xs) \<Longrightarrow> j < length xs \<Longrightarrow>
   map_of (fold (\<lambda>(i, r) rs. dict_set (cand_id r) (r, val i) rs) (enumerate i0 xs) acc)
      (cand_id (xs ! j)) = Some (xs ! j, val (i0 + j))"
proof (induction xs arbitrary: i0 acc j)
  case Nil
  then show ?case by simp
next
  case (Cons x xs)
  show ?case
  proof (cases j)
    case 0
    have "cand_id x \<notin> cand_id ` set xs" using Cons.prems(1) by auto
    then show ?thesis using 0 by (simp add: sem_fold_other map_of_dict_set)
  next
    case (Suc j')
    then have "j' < length xs" using Cons.prems(2) by simp
    moreover have "distinct (map cand_id xs)" using Cons.prems(1) by simp
    ultimately show ?thesis using Suc Cons.IH[of j' "Suc i0"] by simp
  qed
qed

lemma score_semantic_at:
  assumes "distinct (map cand_id sem)" "i < length sem"
  shows "map_of (score_semantic w sem) (cand_id (sem ! i))
           = Some (sem ! i, rank_score i (length sem) * w)"
  using sem_fold_at[OF assms, of "\<lambda>i. rank_score i (length sem) * w" 0 "[]"]
  by (simp add: score_semantic_def)

lemma score_semantic_other:
  assumes "d \<notin> cand_id ` set sem"
  shows "map_of (score_semantic w sem) d = None"
  using sem_fold_other[OF assms, of "\<lambda>i. rank_score i (length sem) * w" 0 "[]"]
  by (simp add: score_semantic_def)

lemma add_keyword_scores_kw_step:
  "add_keyword_scores w kwres acc =
     fold (kw_step (keyword_result (has_distances kwres))
            (\<lambda>i. rank_score i (length (hits kwres)) * w))
       (enumerate 0 (hits kwres)) acc"
  by (simp add: add_keyword_scores_def kw_step_def Let_def)

lemma kw_step_other:
  "d \<noteq> hit_id h \<Longrightarrow> map_of (kw_step new c (i, h) acc) d = map_of acc d"
  by (simp add: kw_step_def map_of_dict_set split: option.splits)

lemma kw_step_at:
  "map_of (kw_step new c (i, h) acc) (hit_id h) =
     (case map_of acc (hit_id h) of
        Some (r, s) \<Rightarrow> Some (r, s + c i)
      | None \<Rightarrow> Some (new h, c i))"
  by (simp add: kw_step_def map_of_dict_set split: option.splits)

lemma kw_fold_other:
  "d \<notin> hit_id ` set hs \<Longrightarrow>
   map_of (fold (kw_step new c) (enumerate i0 hs) acc) d = map_of acc d"
  by (induction hs arbitrary: i0 acc) (simp_all add: kw_step_other)

lemma kw_fold_at:
  "distinct (map hit_id hs) \<Longrightarrow> j < length hs \<Longrightarrow>
   map_of (fold (kw_step new c) (enumerate i0 hs) acc) (hit_id (hs ! j)) =
     (case map_of acc (hit_id (hs ! j)) of
        Some (r, s) \<Rightarrow> Some (r, s + c (i0 + j))
      | None \<Rightarrow> Some (new (hs ! j), c (i0 + j)))"
proof (induction hs arbitrary: i0 acc j)
  case Nil
  then show ?case by simp
next
  case (Cons h hs)
  show ?case
  proof (cases j)
    case 0
    have "hit_id h \<notin> hit_id ` set hs" using Cons.prems(1) by auto
    then show ?thesis using 0 by (simp add: kw_fold_other kw_step_at split: option.splits)
  next
    case (Suc j')
    then have j': "j' < length hs" using Cons.prems(2) by simp
    have d: "distinct (map hit_id hs)" using Cons.prems(1) by simp
    have nin: "hit_id h \<notin> hit_id ` set hs" using Cons.prems(1) by auto
    have "hit_id (hs ! j') \<in> hit_id ` set hs" using j' by simp
    with nin have "hit_id (hs ! j') \<noteq> hit_id h" by metis
    then show ?thesis using Suc Cons.IH[OF d j', of "Suc i0"]
      by (simp add: kw_step_other split: option.splits)
  qed
qed

lemma add_keyword_at:
  assumes "distinct (map hit_id (hits kwres))" "j < length (hits kwres)"
  shows "map_of (add_keyword_scores w kwres acc) (hit_id (hits kwres ! j)) =
     (case map_of acc (hit_id (hits kwres ! j)) of
        Some (r, s) \<Rightarrow> Some (r, s + rank_score j (length (hits kwres)) * w)
      | None \<Rightarrow> Some (keyword_result (has_distances kwres) (hits kwres ! j),
                       rank_score j (length (hits kwres)) * w))"
  unfolding add_keyword_scores_kw_step kw_fold_at[OF assms] by (simp split: option.splits)

lemma add_keyword_other:
  assumes "d \<notin> hit_id ` set (hits kwres)"
  shows "map_of (add_keyword_scores w kwres acc) d = map_of acc d"
  unfolding add_keyword_scores_kw_step using kw_fold_other[OF assms] by simp


lemma rank_score_0: "rank_score 0 n = 1"
  by (simp add: rank_score_def)

text \<open>
  Claim C9. In the fusion loops of \<open>hybrid_search\<close>, with distinct ids in each list:
  the candidate at rank \<open>i\<close> of the \<open>N\<close> semantic results is entered with the score
  \<open>(1 - i/N)\<close> times the semantic weight, and an id that is not in the semantic list gets
  no entry from it; the id at rank \<open>j\<close> of the \<open>M\<close> keyword results has \<open>(1 - j/M)\<close>
  times the keyword weight added to the score it had (0 when it had none), and an id
  that is not in the keyword list keeps its entry unchanged. At rank 0 the contribution
  is exactly the weight of the list, and in a list of one candidate the normalized score
  is 1.
\<close>

theorem rank_normalized_contributions:
  assumes "distinct (map cand_id sem)" and "distinct (map hit_id (hits kwres))"
  shows
   "(\<forall>i<length sem. map_of (score_semantic sw sem) (cand_id (sem ! i))
        = Some (sem ! i, (1 - real i / real (length sem)) * sw)) \<and>
    (\<forall>d. d \<notin> cand_id ` set sem \<longrightarrow> map_of (score_semantic sw sem) d = None) \<and>
    (\<forall>j<length (hits kwres).
        score_of (add_keyword_scores kw kwres acc) (hit_id (hits kwres ! j))
        = score_of acc (hit_id (hits kwres ! j))
          + (1 - real j / real (length (hits kwres))) * kw) \<and>
    (\<forall>d. d \<notin> hit_id ` set (hits kwres) \<longrightarrow>
        map_of (add_keyword_scores kw kwres acc) d = map_of acc d) \<and>
    (sem \<noteq> [] \<longrightarrow> map_of (score_semantic sw sem) (cand_id (sem ! 0)) = Some (sem ! 0, sw)) \<and>
    (hits kwres \<noteq> [] \<longrightarrow>
        score_of (add_keyword_scores kw kwres acc) (hit_id (hits kwres ! 0))
        = score_of acc (hit_id (hits kwres ! 0)) + kw) \<and>
    (length sem = 1 \<longrightarrow>
        (\<forall>c\<in>set sem. map_of (score_semantic sw sem) (cand_id c) = Some (c, 1 * sw)))"
proof -
  have s: "map_of (score_semantic w sem) (cand_id (sem ! i))
        = Some (sem ! i, (1 - real i / real (length sem)) * w)" if "i < length sem" for i w
    using score_semantic_at[OF assms(1) that] by (simp add: rank_score_def)
  have k: "score_of (add_keyword_scores kw kwres acc) (hit_id (hits kwres ! j))
        = score_of acc (hit_id (hits kwres ! j))
          + (1 - real j / real (length (hits kwres))) * kw" if "j < length (hits kwres)" for j
    using add_keyword_at[OF assms(2) that]
    by (simp add: score_of_def rank_score_def split: option.splits)
  have s0: "map_of (score_semantic w sem) (cand_id (sem ! 0)) = Some (sem ! 0, w)"
    if "sem \<noteq> []" for w
    using s[of 0 w] that by simp
  have k0: "score_of (add_keyword_scores kw kwres acc) (hit_id (hits kwres ! 0))
        = score_of acc (hit_id (hits kwres ! 0)) + kw" if "hits kwres \<noteq> []"
    using k[of 0] that by simp
  have s1: "\<forall>c\<in>set sem. map_of (score_semantic sw sem) (cand_id c) = Some (c, 1 * sw)"
    if "length sem = 1"
  proof -
    from that obtain c where c: "sem = [c]" by (cases sem) auto
    then have "sem \<noteq> []" by simp
    from s0[OF this, of sw] show ?thesis unfolding c by simp
  qed
  show ?thesis
  proof (intro conjI allI impI)
    fix i assume "i < length sem"
    then show "map_of (score_semantic sw sem) (cand_id (sem ! i))
        = Some (sem ! i, (1 - real i / real (length sem)) * sw)" by (rule s)
  next
    fix d assume "d \<notin> cand_id ` set sem"
    then show "map_of (score_semantic sw sem) d = None" by (rule score_semantic_other)
  next
    fix j assume "j < length (hits kwres)"
    then show "score_of (add_keyword_scores kw kwres acc) (hit_id (hits kwres ! j))
        = score_of acc (hit_id (hits kwres ! j))
          + (1 - real j / real (length (hits kwres))) * kw" by (rule k)
  next
    fix d assume "d \<notin> hit_id ` set (hits kwres)"
    then show "map_of (add_keyword_scores kw kwres acc) d = map_of acc d"
      by (rule add_keyword_other)
  next
    assume "sem \<noteq> []"
    then show "map_of (score_semantic sw sem) (cand_id (sem ! 0)) = Some (sem ! 0, sw)"
      by (rule s0)
  next
    assume "hits kwres \<noteq> []"
    then show "score_of (add_keyword_scores kw kwres acc) (hit_id (hits kwres ! 0))
        = score_of acc (hit_id (hits kwres ! 0)) + kw" by (rule k0)
  next
    assume "length sem = 1"
    then show "\<forall>c\<in>set sem. map_of (score_semantic sw sem) (cand_id c) = Some (c, 1 * sw)"
      by (rule s1)
  qed
qed





text \<open>
  The lists of the variation \<open>q\<close> of the two-variation retrieval: three semantic
  results with weight 0.7, two keyword results with weight 0.3; and a list of one result.
\<close>

theorem rank_normalized_contributions_witness:
  "map_of (score_semantic 0.7 [cand_b, cand_c, cand_a1]) ''b'' = Some (cand_b, 0.7) \<and>
   map_of (score_semantic 0.7 [cand_b, cand_c, cand_a1]) ''c'' = Some (cand_c, (1 - 1/3) * 0.7) \<and>
   map_of (score_semantic 0.7 [cand_b, cand_c, cand_a1]) ''k'' = None \<and>
   score_of (add_keyword_scores 0.3 q_keyword (score_semantic 0.7 [cand_b, cand_c, cand_a1])) ''a''
     = score_of (score_semantic 0.7 [cand_b, cand_c, cand_a1]) ''a'' + 0.3 \<and>
   score_of (add_keyword_scores 0.3 q_keyword (score_semantic 0.7 [cand_b, cand_c, cand_a1])) ''k''
     = 0 + (1 - 1/2) * 0.3 \<and>
   map_of (add_keyword_scores 0.3 q_keyword (score_semantic 0.7 [cand_b, cand_c, cand_a1])) ''b''
     = map_of (score_semantic 0.7 [cand_b, cand_c, cand_a1]) ''b'' \<and>
   map_of (score_semantic 0.7 [cand_a2]) ''a'' = Some (cand_a2, 1 * 0.7)"
proof -
  let ?sem = "[cand_b, cand_c, cand_a1]"
  let ?S = "score_semantic 0.7 ?sem"
  let ?K = "add_keyword_scores 0.3 q_keyword ?S"
  have d1: "distinct (map cand_id ?sem)"
    by (simp add: cand_b_def cand_c_def cand_a1_def)
  have d2: "distinct (map hit_id (hits q_keyword))"
    by (simp add: q_keyword_def hit_a_kw_def hit_k_def)
  have d3: "distinct (map cand_id [cand_a2])" by simp
  have ids: "cand_id cand_b = ''b''" "cand_id cand_c = ''c''" "cand_id cand_a1 = ''a''"
    "cand_id cand_a2 = ''a''" "hit_id hit_a_kw = ''a''" "hit_id hit_k = ''k''"
    by (simp_all add: cand_b_def cand_c_def cand_a1_def cand_a2_def hit_a_kw_def hit_k_def)
  have hs: "hits q_keyword = [hit_a_kw, hit_k]" by (simp add: q_keyword_def)
  note main = rank_normalized_contributions[OF d1 d2, of "0.7" "0.3" ?S]
  note single = rank_normalized_contributions[OF d3 d2, of "0.7" "0.3" "[]"]
  have sem_at: "i < length ?sem \<Longrightarrow> map_of ?S (cand_id (?sem ! i))
        = Some (?sem ! i, (1 - real i / real (length ?sem)) * 0.7)" for i
    using main by blast
  have sem_no: "d \<notin> cand_id ` set ?sem \<Longrightarrow> map_of ?S d = None" for d
    using main by blast
  have kw_at: "j < length (hits q_keyword) \<Longrightarrow>
        score_of ?K (hit_id (hits q_keyword ! j))
        = score_of ?S (hit_id (hits q_keyword ! j))
          + (1 - real j / real (length (hits q_keyword))) * 0.3" for j
    using main by blast
  have kw_no: "d \<notin> hit_id ` set (hits q_keyword) \<Longrightarrow> map_of ?K d = map_of ?S d" for d
    using main by blast
  have one: "length [cand_a2] = 1 \<Longrightarrow>
      \<forall>c\<in>set [cand_a2]. map_of (score_semantic 0.7 [cand_a2]) (cand_id c) = Some (c, 1 * 0.7)"
    using single by blast
  have 1: "map_of ?S ''b'' = Some (cand_b, 0.7)"
    using sem_at[of 0] ids by simp
  have 2: "map_of ?S ''c'' = Some (cand_c, (1 - 1/3) * 0.7)"
    using sem_at[of 1] ids by simp
  have 3: "map_of ?S ''k'' = None"
    using sem_no[of "''k''"] ids by simp
  have 4: "score_of ?K ''a'' = score_of ?S ''a'' + 0.3"
    using kw_at[of 0] ids hs by simp
  have "score_of ?S ''k'' = 0" using 3 by (simp add: score_of_def)
  then have 5: "score_of ?K ''k'' = 0 + (1 - 1/2) * 0.3"
    using kw_at[of 1] ids hs by simp
  have 6: "map_of ?K ''b'' = map_of ?S ''b''"
    using kw_no[of "''b''"] ids hs by simp
  have 7: "map_of (score_semantic 0.7 [cand_a2]) ''a'' = Some (cand_a2, 1 * 0.7)"
    using one ids by simp
  show ?thesis using 1 2 3 4 5 6 7 by blast
qed

section \<open>Properties of the retriever\<close>

subsection \<open>The pipeline after the searches\<close>

lemma filter_by_threshold_Inr:
  "filter_by_threshold t xs = Inr ys \<Longrightarrow>
     ys = filter (\<lambda>c. meets_threshold t c = Inr True) xs \<and>
     (\<forall>c\<in>set xs. similarity c \<noteq> IsNone)"
proof (induction xs arbitrary: ys)
  case Nil
  then show ?case by simp
next
  case (Cons x xs)
  from Cons.prems obtain keep rest where
    k: "meets_threshold t x = Inr keep" and r: "filter_by_threshold t xs = Inr rest"
    and ys: "ys = (if keep then x # rest else rest)"
    by (auto split: sum.splits)
  from k have "similarity x \<noteq> IsNone" by (auto simp: meets_threshold_def)
  then show ?case using Cons.IH[OF r] k ys by auto
qed

lemma filter_by_threshold_total:
  "(\<forall>c\<in>set xs. similarity c \<noteq> IsNone) \<Longrightarrow>
     filter_by_threshold t xs = Inr (filter (\<lambda>c. meets_threshold t c = Inr True) xs)"
proof (induction xs)
  case Nil
  then show ?case by simp
next
  case (Cons x xs)
  then have "similarity x \<noteq> IsNone" by simp
  then obtain keep where k: "meets_threshold t x = Inr keep"
    by (cases "similarity x") (simp_all add: meets_threshold_def)
  then show ?case using Cons by (cases keep) simp_all
qed

lemma meets_threshold_NoKey:
  "similarity c = NoKey \<Longrightarrow> meets_threshold t c = Inr (0 \<ge> t)"
  by (simp add: meets_threshold_def)

lemma meets_threshold_True_pos:
  assumes "meets_threshold t c = Inr True" "0 < t"
  shows "\<exists>v. similarity c = Val v \<and> t \<le> v"
  using assms by (cases "similarity c") (simp_all add: meets_threshold_def)

lemma set_sorted_desc: "set (sorted_desc f xs) = set xs"
  by (simp add: sorted_desc_def)

lemma set_py_slice_to: "set (py_slice_to k xs) \<subseteq> set xs"
  by (simp add: py_slice_to_def Let_def set_take_subset)

lemma dedup_loop_subset: "set (dedup_loop seen xs) \<subseteq> set xs"
  by (induction xs arbitrary: seen) auto

lemma dedup_loop_find:
  "c \<in> set (dedup_loop seen xs) \<Longrightarrow> find (\<lambda>x. fingerprint x = fingerprint c) xs = Some c"
proof (induction xs arbitrary: seen)
  case Nil
  then show ?case by simp
next
  case (Cons x xs)
  show ?case
  proof (cases "fingerprint x \<in> seen")
    case True
    then have c: "c \<in> set (dedup_loop seen xs)" using Cons.prems by simp
    then have "fingerprint c \<notin> seen" using dedup_loop_fresh[of seen xs] by blast
    then have "fingerprint x \<noteq> fingerprint c" using True by metis
    then show ?thesis using Cons.IH[OF c] by simp
  next
    case False
    show ?thesis
    proof (cases "c = x")
      case True
      then show ?thesis by simp
    next
      case ne: False
      then have c: "c \<in> set (dedup_loop (insert (fingerprint x) seen) xs)"
        using Cons.prems False by simp
      then have "fingerprint c \<notin> insert (fingerprint x) seen"
        using dedup_loop_fresh[of "insert (fingerprint x) seen" xs] by blast
      then have "fingerprint x \<noteq> fingerprint c" by auto
      then show ?thesis using Cons.IH[OF c] by simp
    qed
  qed
qed

lemma post_process_Inr_ex:
  assumes "post_process r k all_results = Inr out"
  shows "\<exists>filtered. filter_by_threshold (similarity_threshold r) (deduplicate_results all_results) = Inr filtered
    \<and> out = py_slice_to k (sorted_desc similarity_key filtered)"
proof (cases "filter_by_threshold (similarity_threshold r) (deduplicate_results all_results)")
  case (Inl e)
  then show ?thesis using assms by (simp add: post_process_def)
next
  case (Inr filtered)
  then have "out = py_slice_to k (sorted_desc similarity_key filtered)"
    using assms by (simp add: post_process_def)
  with Inr show ?thesis by blast
qed

lemma post_process_Inr:
  assumes "post_process r k all_results = Inr out" "c \<in> set out"
  shows "c \<in> set all_results \<and> meets_threshold (similarity_threshold r) c = Inr True \<and>
     find (\<lambda>x. fingerprint x = fingerprint c) all_results = Some c"
proof -
  from post_process_Inr_ex[OF assms(1)] obtain filtered where
    f: "filter_by_threshold (similarity_threshold r) (deduplicate_results all_results) = Inr filtered"
    and out: "out = py_slice_to k (sorted_desc similarity_key filtered)"
    by blast
  have "set out \<subseteq> set (sorted_desc similarity_key filtered)"
    unfolding out by (rule set_py_slice_to)
  then have "c \<in> set (sorted_desc similarity_key filtered)" using assms(2) by (rule subsetD)
  then have cf: "c \<in> set filtered" by (simp only: set_sorted_desc)
  have fl: "filtered = filter (\<lambda>c. meets_threshold (similarity_threshold r) c = Inr True)
      (deduplicate_results all_results)"
    using filter_by_threshold_Inr[OF f] by (rule conjunct1)
  from cf have m: "meets_threshold (similarity_threshold r) c = Inr True"
    and d: "c \<in> set (dedup_loop {} all_results)"
    unfolding fl deduplicate_results_def by simp_all
  from d have "c \<in> set all_results" using dedup_loop_subset by (rule subsetD[rotated])
  moreover from d have "find (\<lambda>x. fingerprint x = fingerprint c) all_results = Some c"
    by (rule dedup_loop_find)
  ultimately show ?thesis using m by simp
qed

lemma search_all_Inr:
  "search_all r k vs = Inr all_results \<Longrightarrow>
     all_results = concat (map (\<lambda>v. projr (search_variation r k v)) vs) \<and>
     (\<forall>v\<in>set vs. \<not> isl (search_variation r k v))"
proof (induction vs arbitrary: all_results)
  case Nil
  then show ?case by simp
next
  case (Cons v vs)
  from Cons.prems obtain res rest where
    "search_variation r k v = Inr res" "search_all r k vs = Inr rest" "all_results = res @ rest"
    by (auto split: sum.splits)
  then show ?case using Cons.IH[of rest] by simp
qed

lemma search_all_find:
  "search_all r k vs =
     (case find (\<lambda>v. isl (search_variation r k v)) vs of
        Some v \<Rightarrow> Inl (projl (search_variation r k v))
      | None \<Rightarrow> Inr (concat (map (\<lambda>v. projr (search_variation r k v)) vs)))"
proof (induction vs)
  case Nil
  then show ?case by simp
next
  case (Cons v vs)
  show ?case
  proof (cases "search_variation r k v")
    case (Inl e)
    then show ?thesis by simp
  next
    case (Inr res)
    then show ?thesis using Cons.IH by (simp split: option.splits)
  qed
qed


lemma dict_set_subset: "set (dict_set k v d) \<subseteq> insert (k, v) (set d)"
  by (induction d) auto

lemma sem_fold_values:
  "(\<forall>e\<in>set acc. P (fst (snd e))) \<Longrightarrow> (\<forall>x\<in>set xs. P x) \<Longrightarrow>
   \<forall>e\<in>set (fold (\<lambda>(i, r) rs. dict_set (cand_id r) (r, val i) rs) (enumerate i0 xs) acc).
      P (fst (snd e))"
proof (induction xs arbitrary: i0 acc)
  case Nil
  then show ?case by simp
next
  case (Cons x xs)
  have "\<forall>e\<in>set (dict_set (cand_id x) (x, val i0) acc). P (fst (snd e))"
    using Cons.prems dict_set_subset[of "cand_id x" "(x, val i0)" acc] by auto
  then show ?case using Cons.IH[of _ "Suc i0"] Cons.prems(2) by simp
qed

lemma kw_step_values:
  assumes "\<forall>e\<in>set acc. P (fst (snd e))" "P (new h)"
  shows "\<forall>e\<in>set (kw_step new c (i, h) acc). P (fst (snd e))"
proof (cases "map_of acc (hit_id h)")
  case None
  then have "kw_step new c (i, h) acc = dict_set (hit_id h) (new h, c i) acc"
    by (simp add: kw_step_def)
  then show ?thesis
    using assms dict_set_subset[of "hit_id h" "(new h, c i)" acc] by auto
next
  case (Some v)
  obtain r s where v: "v = (r, s)" by (cases v)
  have "(hit_id h, r, s) \<in> set acc" using Some v by (simp add: map_of_SomeD)
  then have "P r" using assms(1) by force
  moreover have "kw_step new c (i, h) acc = dict_set (hit_id h) (r, s + c i) acc"
    using Some v by (simp add: kw_step_def)
  ultimately show ?thesis
    using assms dict_set_subset[of "hit_id h" "(r, s + c i)" acc] by auto
qed

lemma kw_fold_values:
  "(\<forall>e\<in>set acc. P (fst (snd e))) \<Longrightarrow> (\<forall>h\<in>set hs. P (new h)) \<Longrightarrow>
   \<forall>e\<in>set (fold (kw_step new c) (enumerate i0 hs) acc). P (fst (snd e))"
proof (induction hs arbitrary: i0 acc)
  case Nil
  then show ?case by simp
next
  case (Cons h hs)
  have "\<forall>e\<in>set (kw_step new c (i0, h) acc). P (fst (snd e))"
    using Cons.prems by (intro kw_step_values) simp_all
  then show ?case using Cons.IH[of _ "Suc i0"] Cons.prems(2) by simp
qed

lemma fuse_values:
  assumes "e \<in> set (fuse sw kw sem kwres)"
  shows "fst (snd e) \<in> set sem \<or>
         fst (snd e) \<in> keyword_result (has_distances kwres) ` set (hits kwres)"
proof -
  let ?P = "\<lambda>c. c \<in> set sem \<or> c \<in> keyword_result (has_distances kwres) ` set (hits kwres)"
  have "\<forall>e\<in>set (score_semantic sw sem). ?P (fst (snd e))"
    unfolding score_semantic_def by (intro sem_fold_values) simp_all
  then have "\<forall>e\<in>set (fuse sw kw sem kwres). ?P (fst (snd e))"
    unfolding fuse_def add_keyword_scores_kw_step by (intro kw_fold_values) simp_all
  then show ?thesis using assms by blast
qed

lemma ranked_results_subset:
  "set (ranked_results n rs) \<subseteq> snd ` set rs"
proof -
  have "set (ranked_results n rs) \<subseteq> set (sorted_desc snd (map snd rs))"
    unfolding ranked_results_def by (rule set_py_slice_to)
  then show ?thesis by (simp add: set_sorted_desc)
qed

lemma similarity_keyword_result: "similarity (keyword_result b h) = NoKey"
  by (simp add: keyword_result_def)

lemma similarity_format_result:
  "similarity (format_result b h) = (if b then Val (1 - hit_distance h) else IsNone)"
  by (simp add: format_result_def)

lemma search_Val:
  assumes "search col q n = Inr res" "c \<in> set res" "similarity c = Val x"
  shows "\<exists>qr h. query_embeddings col q n = Inr qr \<and> h \<in> set (hits qr) \<and>
            c = format_result True h"
proof (cases "query_embeddings col q n")
  case (Inl e)
  then show ?thesis using assms(1) by (simp add: search_def)
next
  case (Inr qr)
  then have "res = map (format_result (has_distances qr)) (hits qr)"
    using assms(1) by (simp add: search_def)
  then obtain h where h: "h \<in> set (hits qr)" "c = format_result (has_distances qr) h"
    using assms(2) by auto
  have "has_distances qr" using h(2) assms(3) by (auto simp: similarity_format_result split: if_splits)
  then show ?thesis using Inr h by auto
qed

lemma hybrid_search_Val:
  assumes "hybrid_search col q n sw kw = Inr res" "c \<in> set res" "similarity c = Val x"
  shows "\<exists>qr h. query_embeddings col q (n * 2) = Inr qr \<and> h \<in> set (hits qr) \<and>
            c = format_result True h"
proof (cases "search col q (n * 2)")
  case (Inl e)
  then show ?thesis using assms(1) by (simp add: hybrid_search_def)
next
  case sem: (Inr sem)
  show ?thesis
  proof (cases "query_texts col q (n * 2)")
    case (Inl e)
    then show ?thesis using assms(1) sem by (simp add: hybrid_search_def)
  next
    case (Inr kwres)
    then have res: "res = map fst (ranked_results n (fuse sw kw sem kwres))"
      using assms(1) sem by (simp add: hybrid_search_def)
    then obtain p where p: "p \<in> set (ranked_results n (fuse sw kw sem kwres))" "c = fst p"
      using assms(2) by auto
    then have "p \<in> snd ` set (fuse sw kw sem kwres)" using ranked_results_subset by blast
    then obtain e where e: "e \<in> set (fuse sw kw sem kwres)" "p = snd e" by blast
    from fuse_values[OF e(1)] have "c \<in> set sem \<or>
         c \<in> keyword_result (has_distances kwres) ` set (hits kwres)"
      using p(2) e(2) by simp
    then have "c \<in> set sem"
      using assms(3) by (auto simp: similarity_keyword_result)
    then show ?thesis using search_Val[OF sem _ assms(3)] by blast
  qed
qed

lemma search_variation_Val:
  assumes "search_variation r k v = Inr res" "c \<in> set res" "similarity c = Val x"
  shows "\<exists>qr h. query_embeddings (chroma_manager r) v (if use_hybrid r then k * 2 else k) = Inr qr
           \<and> h \<in> set (hits qr) \<and> c = format_result True h"
proof (cases "use_hybrid r")
  case True
  then show ?thesis using assms hybrid_search_Val[of "chroma_manager r" v k] 
    by (simp add: search_variation_def)
next
  case False
  then show ?thesis using assms search_Val[of "chroma_manager r" v k]
    by (simp add: search_variation_def)
qed

lemma kw_step_nokey:
  assumes "\<forall>c' s. map_of acc d = Some (c', s) \<longrightarrow> similarity c' = NoKey"
    and "\<forall>h. similarity (new h) = NoKey"
  shows "\<forall>c' s. map_of (kw_step new c (i, g) acc) d = Some (c', s) \<longrightarrow> similarity c' = NoKey"
proof (cases "d = hit_id g")
  case True
  show ?thesis
    unfolding True kw_step_at using assms unfolding True
    by (auto split: option.splits)
next
  case False
  then show ?thesis using assms(1) by (simp add: kw_step_other)
qed

lemma kw_step_dom:
  "d = hit_id g \<or> map_of acc d \<noteq> None \<Longrightarrow> map_of (kw_step new c (i, g) acc) d \<noteq> None"
proof (cases "d = hit_id g")
  case True
  show ?thesis unfolding True kw_step_at by (simp split: option.splits)
next
  case False
  assume "d = hit_id g \<or> map_of acc d \<noteq> None"
  then show ?thesis using False by (simp add: kw_step_other)
qed

lemma kw_fold_nokey:
  assumes "\<forall>h. similarity (new h) = NoKey"
  shows "d \<in> hit_id ` set hs \<or> map_of acc d \<noteq> None \<Longrightarrow>
     \<forall>c' s. map_of acc d = Some (c', s) \<longrightarrow> similarity c' = NoKey \<Longrightarrow>
     \<exists>c' s. map_of (fold (kw_step new c) (enumerate i0 hs) acc) d = Some (c', s)
            \<and> similarity c' = NoKey"
proof (induction hs arbitrary: acc i0)
  case Nil
  then show ?case by auto
next
  case (Cons g gs)
  let ?acc' = "kw_step new c (i0, g) acc"
  have "d = hit_id g \<or> map_of acc d \<noteq> None \<or> d \<in> hit_id ` set gs"
    using Cons.prems(1) by auto
  then have 1: "d \<in> hit_id ` set gs \<or> map_of ?acc' d \<noteq> None"
    using kw_step_dom[of d g acc new c i0] by blast
  have 2: "\<forall>c' s. map_of ?acc' d = Some (c', s) \<longrightarrow> similarity c' = NoKey"
    using Cons.prems(2) assms by (rule kw_step_nokey)
  show ?case using Cons.IH[OF 1 2, of "Suc i0"] by simp
qed

subsection \<open>The two-variation retrieval, evaluated\<close>

lemma lit_r_q: "lit ''r'' \<noteq> lit ''q''"
  by (simp add: lit_def)

lemma format_hits:
  "format_result True hit_b = cand_b" "format_result True hit_c = cand_c"
  "format_result True hit_a1 = cand_a1" "format_result True hit_a2 = cand_a2"
  "keyword_result True hit_k = cand_k"
  by (simp_all add: format_result_def keyword_result_def hit_b_def hit_c_def hit_a1_def
      hit_a2_def hit_k_def cand_b_def cand_c_def cand_a1_def cand_a2_def cand_k_def)

lemma fuse_q:
  "fuse 0.7 0.3 [cand_b, cand_c, cand_a1] q_keyword =
     [(''b'', cand_b, 7/10), (''c'', cand_c, 7/15), (''a'', cand_a1, 8/15), (''k'', cand_k, 3/20)]"
  by (simp add: fuse_def score_semantic_def add_keyword_scores_def rank_score_def Let_def
      q_keyword_def hit_a_kw_def cand_a1_def cand_b_def cand_c_def format_hits[symmetric])
     (simp add: hit_k_def keyword_result_def cand_k_def)

lemma fuse_r:
  "fuse 0.7 0.3 [cand_a2] r_keyword = [(''a'', cand_a2, 1)]"
  by (simp add: fuse_def score_semantic_def add_keyword_scores_def rank_score_def Let_def
      r_keyword_def hit_a2_def cand_a2_def)

lemma hybrid_q:
  "hybrid_search two_variant_collection (lit ''q'') 8 0.7 0.3 = Inr [cand_b, cand_a1, cand_c, cand_k]"
  by (simp add: hybrid_search_def search_def two_variant_collection_def q_semantic_def
      format_hits fuse_q ranked_results_def sorted_desc_def py_slice_to_def)

lemma hybrid_r:
  "hybrid_search two_variant_collection (lit ''r'') 8 0.7 0.3 = Inr [cand_a2]"
  by (simp add: hybrid_search_def search_def two_variant_collection_def r_semantic_def lit_r_q
      format_hits fuse_r ranked_results_def sorted_desc_def py_slice_to_def)

lemma search_all_two:
  "search_all two_variant_retriever 8 [lit ''q'', lit ''r'']
     = Inr [cand_b, cand_a1, cand_c, cand_k, cand_a2]"
  by (simp add: search_variation_def two_variant_retriever_def hybrid_q hybrid_r)

lemma post_process_two:
  "post_process two_variant_retriever 8 [cand_b, cand_a1, cand_c, cand_k, cand_a2]
     = Inr [cand_b, cand_c, cand_a1]"
  by (simp add: post_process_def deduplicate_results_def fingerprint_def meets_threshold_def
      two_variant_retriever_def sorted_desc_def similarity_key_def py_slice_to_def
      cand_b_def cand_c_def cand_a1_def cand_a2_def cand_k_def lit_def)

lemma retrieve_two:
  "retrieve two_variant_retriever (lit ''q'') None = Inr [cand_b, cand_c, cand_a1]"
proof -
  have k: "effective_k two_variant_retriever None = 8"
    by (simp add: effective_k_def two_variant_retriever_def)
  have e: "expand_query two_variant_retriever (lit ''q'') = [lit ''q'', lit ''r'']"
    by (simp add: two_variant_retriever_def)
  show ?thesis
    unfolding retrieve_def retrieve_with_expansion_def Let_def k e search_all_two
    by (simp add: post_process_two)
qed

subsection \<open>Candidates without a similarity\<close>

text \<open>
  Claim C10. A candidate without a \<open>similarity\<close> key is treated by
  \<open>filter_by_threshold\<close> as having similarity 0: it is kept exactly when the threshold is
  at most 0. Every id that only the keyword branch of \<open>hybrid_search\<close> returned has
  such a candidate as its result. So when \<open>similarity_threshold\<close> is positive, no
  candidate in the output of \<open>retrieve\<close> lacks the key.
\<close>

theorem missing_similarity_excluded:
  "(similarity c = NoKey \<and> filter_by_threshold t cs = Inr kept \<longrightarrow>
      (c \<in> set kept \<longleftrightarrow> c \<in> set cs \<and> t \<le> 0)) \<and>
   (h \<in> set (hits kwres) \<and> hit_id h \<notin> cand_id ` set sem \<longrightarrow>
      (\<exists>c' s. map_of (fuse sw kw sem kwres) (hit_id h) = Some (c', s) \<and> similarity c' = NoKey)) \<and>
   (0 < similarity_threshold r \<and> retrieve r q k_arg = Inr out \<longrightarrow>
      (\<forall>c'\<in>set out. similarity c' \<noteq> NoKey))"
proof (intro conjI impI)
  assume a: "similarity c = NoKey \<and> filter_by_threshold t cs = Inr kept"
  then have "kept = filter (\<lambda>c. meets_threshold t c = Inr True) cs"
    using filter_by_threshold_Inr by blast
  moreover have "meets_threshold t c = Inr (0 \<ge> t)"
    using a by (intro meets_threshold_NoKey) simp
  ultimately show "c \<in> set kept \<longleftrightarrow> c \<in> set cs \<and> t \<le> 0" by simp
next
  assume a: "h \<in> set (hits kwres) \<and> hit_id h \<notin> cand_id ` set sem"
  then have none: "map_of (score_semantic sw sem) (hit_id h) = None"
    by (intro score_semantic_other) simp
  have 1: "hit_id h \<in> hit_id ` set (hits kwres)
      \<or> map_of (score_semantic sw sem) (hit_id h) \<noteq> None"
    using a by simp
  have 2: "\<forall>c' s. map_of (score_semantic sw sem) (hit_id h) = Some (c', s)
      \<longrightarrow> similarity c' = NoKey"
    using none by simp
  have 3: "\<forall>g. similarity (keyword_result (has_distances kwres) g) = NoKey"
    by (simp add: similarity_keyword_result)
  show "\<exists>c' s. map_of (fuse sw kw sem kwres) (hit_id h) = Some (c', s) \<and> similarity c' = NoKey"
    unfolding fuse_def add_keyword_scores_kw_step
    using 3 1 2 by (rule kw_fold_nokey)
next
  assume a: "0 < similarity_threshold r \<and> retrieve r q k_arg = Inr out"
  show "\<forall>c'\<in>set out. similarity c' \<noteq> NoKey"
  proof
    fix c' assume c': "c' \<in> set out"
    obtain all_results where
      pp: "post_process r (effective_k r k_arg) all_results = Inr out"
    proof (cases "search_all r (effective_k r k_arg) (expand_query r q)")
      case (Inl e)
      then show ?thesis using a by (simp add: retrieve_def retrieve_with_expansion_def Let_def)
    next
      case (Inr all_results)
      then have "post_process r (effective_k r k_arg) all_results = Inr out"
        using a by (simp add: retrieve_def retrieve_with_expansion_def Let_def)
      then show ?thesis by (rule that)
    qed
    have "meets_threshold (similarity_threshold r) c' = Inr True"
      using post_process_Inr[OF pp c'] by simp
    then obtain v where "similarity c' = Val v"
      using meets_threshold_True_pos a by blast
    then show "similarity c' \<noteq> NoKey" by simp
  qed
qed

text \<open>
  In the two-variation retrieval the id \<open>k\<close> comes from the keyword query only: its
  candidate has no \<open>similarity\<close>, the filter with threshold 0.3 drops it, and it is
  absent from what \<open>retrieve\<close> returns.
\<close>

theorem missing_similarity_excluded_witness:
  "similarity cand_k = NoKey \<and>
   filter_by_threshold 0.3 [cand_b, cand_a1, cand_c, cand_k] = Inr [cand_b, cand_a1, cand_c] \<and>
   cand_k \<notin> set [cand_b, cand_a1, cand_c] \<and>
   hit_k \<in> set (hits q_keyword) \<and>
   (\<exists>c' s. map_of (fuse 0.7 0.3 [cand_b, cand_c, cand_a1] q_keyword) (hit_id hit_k) = Some (c', s)
      \<and> similarity c' = NoKey) \<and>
   search_variation two_variant_retriever 8 (lit ''q'') = Inr [cand_b, cand_a1, cand_c, cand_k] \<and>
   retrieve two_variant_retriever (lit ''q'') None = Inr [cand_b, cand_c, cand_a1] \<and>
   similarity cand_b \<noteq> NoKey \<and> similarity cand_c \<noteq> NoKey \<and> similarity cand_a1 \<noteq> NoKey"
proof -
  have n: "similarity cand_k = NoKey" by (simp add: cand_k_def)
  have h: "hit_k \<in> set (hits q_keyword)" by (simp add: q_keyword_def)
  have f: "hit_id hit_k \<notin> cand_id ` set [cand_b, cand_c, cand_a1]"
    by (simp add: hit_k_def cand_b_def cand_c_def cand_a1_def)
  have t: "0 < similarity_threshold two_variant_retriever"
    by (simp add: two_variant_retriever_def)
  have s: "search_variation two_variant_retriever 8 (lit ''q'') = Inr [cand_b, cand_a1, cand_c, cand_k]"
    by (simp add: search_variation_def two_variant_retriever_def hybrid_q)
  have fl: "filter_by_threshold 0.3 [cand_b, cand_a1, cand_c, cand_k] = Inr [cand_b, cand_a1, cand_c]"
    by (simp add: meets_threshold_def cand_b_def cand_c_def cand_a1_def cand_k_def)
  have mt: "cand_k \<notin> set [cand_b, cand_a1, cand_c]"
    using missing_similarity_excluded[of cand_k "0.3" "[cand_b, cand_a1, cand_c, cand_k]"
        "[cand_b, cand_a1, cand_c]"] n fl
    by simp
  have ex: "\<exists>c' s. map_of (fuse 0.7 0.3 [cand_b, cand_c, cand_a1] q_keyword) (hit_id hit_k) = Some (c', s)
      \<and> similarity c' = NoKey"
    using missing_similarity_excluded[of _ _ _ _ hit_k q_keyword "[cand_b, cand_c, cand_a1]" "0.7" "0.3"] h f by blast
  have "\<forall>c'\<in>set [cand_b, cand_c, cand_a1]. similarity c' \<noteq> NoKey"
    using missing_similarity_excluded[of _ _ _ _ _ _ _ _ _ two_variant_retriever "lit ''q''" None "[cand_b, cand_c, cand_a1]"]
      t retrieve_two by blast
  then show ?thesis using n fl mt h ex s retrieve_two by simp
qed

subsection \<open>A search that raises\<close>

lemma hybrid_q_failing:
  "hybrid_search failing_collection (lit ''q'') 8 0.7 0.3 = Inr [cand_b, cand_a1, cand_c, cand_k]"
  by (simp add: hybrid_search_def search_def failing_collection_def q_semantic_def
      format_hits fuse_q ranked_results_def sorted_desc_def py_slice_to_def)

lemma hybrid_r_failing:
  "hybrid_search failing_collection (lit ''r'') 8 0.7 0.3 = Inl (ExternalError ''index unavailable'')"
  by (simp add: hybrid_search_def search_def failing_collection_def lit_r_q)

lemma failing_fields:
  "use_hybrid failing_retriever" "chroma_manager failing_retriever = failing_collection"
  "semantic_weight failing_retriever = 0.7" "keyword_weight failing_retriever = 0.3"
  "similarity_threshold failing_retriever = 0.3"
  "expand_query failing_retriever (lit ''q'') = [lit ''q'', lit ''r'']"
  "effective_k failing_retriever None = 8"
  by (simp_all add: failing_retriever_def two_variant_retriever_def effective_k_def)

text \<open>
  Claim C2 fails. The query has the variations \<open>q\<close> and \<open>r\<close>. The search for \<open>q\<close>
  returns four candidates, of which three would pass deduplication and the filter; the
  search for \<open>r\<close> raises. \<open>retrieve\<close> does not return those three candidates: it raises
  the error.
\<close>

theorem failing_variant_aborts_retrieve_counterexample:
  "expand_query failing_retriever (lit ''q'') = [lit ''q'', lit ''r''] \<and>
   search_variation failing_retriever 8 (lit ''q'') = Inr [cand_b, cand_a1, cand_c, cand_k] \<and>
   search_variation failing_retriever 8 (lit ''r'') = Inl (ExternalError ''index unavailable'') \<and>
   post_process failing_retriever 8 [cand_b, cand_a1, cand_c, cand_k] = Inr [cand_b, cand_c, cand_a1] \<and>
   retrieve failing_retriever (lit ''q'') None = Inl (ExternalError ''index unavailable'')"
proof -
  have sq: "search_variation failing_retriever 8 (lit ''q'') = Inr [cand_b, cand_a1, cand_c, cand_k]"
    by (simp add: search_variation_def failing_fields hybrid_q_failing)
  have sr: "search_variation failing_retriever 8 (lit ''r'') = Inl (ExternalError ''index unavailable'')"
    by (simp add: search_variation_def failing_fields hybrid_r_failing)
  have pp: "post_process failing_retriever 8 [cand_b, cand_a1, cand_c, cand_k] = Inr [cand_b, cand_c, cand_a1]"
    by (simp add: post_process_def deduplicate_results_def fingerprint_def meets_threshold_def
      failing_fields sorted_desc_def similarity_key_def py_slice_to_def
      cand_b_def cand_c_def cand_a1_def cand_k_def lit_def)
  have r: "retrieve failing_retriever (lit ''q'') None = Inl (ExternalError ''index unavailable'')"
    unfolding retrieve_def retrieve_with_expansion_def Let_def failing_fields
    by (simp add: sq sr)
  show ?thesis using sq sr pp r failing_fields(6) by simp
qed

text \<open>
  Claim C2, amended. The loop of \<open>retrieve\<close> has no handler: when the search of some
  variation raises, \<open>retrieve\<close> raises the error of the first variation that fails. Only
  when no search raises does it return the deduplicated, filtered, sorted and truncated
  concatenation of the results of all variations.
\<close>

theorem search_error_aborts_retrieve:
  "retrieve r q k_arg =
     (let k = effective_k r k_arg; variations = expand_query r q in
      case find (\<lambda>v. isl (search_variation r k v)) variations of
        Some v \<Rightarrow> Inl (projl (search_variation r k v))
      | None \<Rightarrow> post_process r k (concat (map (\<lambda>v. projr (search_variation r k v)) variations)))"
  unfolding retrieve_def retrieve_with_expansion_def Let_def search_all_find
  by (simp split: option.splits)

subsection \<open>Where the similarity of a returned candidate comes from\<close>

text \<open>
  Claim C3, amended. When \<open>similarity_threshold\<close> is positive, every candidate that
  \<open>retrieve\<close> returns carries a \<open>similarity\<close>, and the value is 1 minus the distance of
  the hit of the semantic (embedding) query of some variation from which the candidate
  was built, and it is at least the threshold. The candidate is the first one with its
  fingerprint in the concatenated results of the variations. The keyword query and the
  fused scores have no part in the value.
\<close>

theorem similarity_from_semantic_hit:
  assumes "0 < similarity_threshold r" and "retrieve r q k_arg = Inr out" and "c \<in> set out"
  shows "\<exists>all_results v qr h.
           search_all r (effective_k r k_arg) (expand_query r q) = Inr all_results \<and>
           find (\<lambda>x. fingerprint x = fingerprint c) all_results = Some c \<and>
           v \<in> set (expand_query r q) \<and>
           query_embeddings (chroma_manager r) v
             (if use_hybrid r then effective_k r k_arg * 2 else effective_k r k_arg) = Inr qr \<and>
           h \<in> set (hits qr) \<and>
           c = format_result True h \<and>
           similarity c = Val (1 - hit_distance h) \<and>
           similarity_threshold r \<le> 1 - hit_distance h"
proof -
  let ?k = "effective_k r k_arg"
  let ?vs = "expand_query r q"
  obtain all_results where sa: "search_all r ?k ?vs = Inr all_results"
    and pp: "post_process r ?k all_results = Inr out"
  proof (cases "search_all r ?k ?vs")
    case (Inl e)
    then show ?thesis using assms(2) by (simp add: retrieve_def retrieve_with_expansion_def Let_def)
  next
    case (Inr all_results)
    then have "post_process r ?k all_results = Inr out"
      using assms(2) by (simp add: retrieve_def retrieve_with_expansion_def Let_def)
    with Inr show ?thesis by (rule that)
  qed
  from post_process_Inr[OF pp assms(3)] have
    mem: "c \<in> set all_results" and
    mt: "meets_threshold (similarity_threshold r) c = Inr True" and
    fnd: "find (\<lambda>x. fingerprint x = fingerprint c) all_results = Some c"
    by simp_all
  from meets_threshold_True_pos[OF mt assms(1)] obtain x where
    x: "similarity c = Val x" "similarity_threshold r \<le> x" by blast
  from search_all_Inr[OF sa] have
    cc: "all_results = concat (map (\<lambda>v. projr (search_variation r ?k v)) ?vs)" and
    ok: "\<forall>v\<in>set ?vs. \<not> isl (search_variation r ?k v)" by simp_all
  from mem cc obtain v where v: "v \<in> set ?vs" "c \<in> set (projr (search_variation r ?k v))"
    by auto
  from ok v(1) have "\<not> isl (search_variation r ?k v)" by simp
  then have sv: "search_variation r ?k v = Inr (projr (search_variation r ?k v))"
    by (cases "search_variation r ?k v") simp_all
  from search_variation_Val[OF sv v(2) x(1)] obtain qr h where
    qr: "query_embeddings (chroma_manager r) v (if use_hybrid r then ?k * 2 else ?k) = Inr qr"
    and h: "h \<in> set (hits qr)" "c = format_result True h" by blast
  have sim: "similarity c = Val (1 - hit_distance h)"
    unfolding h(2) by (simp add: similarity_format_result)
  with x have "similarity_threshold r \<le> 1 - hit_distance h" by simp
  with sa fnd v(1) qr h sim show ?thesis by blast
qed

text \<open>
  Claim C3 fails. In the two-variation retrieval the id \<open>a\<close> is returned with
  similarity 0.4, one minus its semantic distance for the variation \<open>q\<close>. In that
  variation the keyword list contributed more to its fused score (3/10) than the semantic
  list (7/30), and the keyword hit has distance 0.2, that is similarity 0.8. The instance
  of \<open>a\<close> found for the variation \<open>r\<close> has the higher fused score (1 against 8/15) and
  the similarity 0.9. The value returned is neither 0.8 nor 0.9.
\<close>

theorem similarity_not_from_highest_score_counterexample:
  "retrieve two_variant_retriever (lit ''q'') None = Inr [cand_b, cand_c, cand_a1] \<and>
   similarity cand_a1 = Val 0.4 \<and>
   query_embeddings two_variant_collection (lit ''q'') 16 = Inr q_semantic \<and>
   query_texts two_variant_collection (lit ''q'') 16 = Inr q_keyword \<and>
   score_of (score_semantic 0.7 [cand_b, cand_c, cand_a1]) ''a'' = 7/30 \<and>
   score_of (fuse 0.7 0.3 [cand_b, cand_c, cand_a1] q_keyword) ''a'' = 7/30 + 3/10 \<and>
   hits q_keyword ! 0 = hit_a_kw \<and> hit_id hit_a_kw = ''a'' \<and> 1 - hit_distance hit_a_kw = 0.8 \<and>
   search_variation two_variant_retriever 8 (lit ''r'') = Inr [cand_a2] \<and>
   cand_id cand_a2 = cand_id cand_a1 \<and> similarity cand_a2 = Val 0.9 \<and>
   score_of (fuse 0.7 0.3 [cand_a2] r_keyword) ''a'' = 1"
proof -
  have 1: "score_of (score_semantic 0.7 [cand_b, cand_c, cand_a1]) ''a'' = 7/30"
    by (simp add: score_semantic_def score_of_def rank_score_def cand_b_def cand_c_def cand_a1_def)
  have 2: "score_of (fuse 0.7 0.3 [cand_b, cand_c, cand_a1] q_keyword) ''a'' = 7/30 + 3/10"
    by (simp add: fuse_q score_of_def)
  have 3: "search_variation two_variant_retriever 8 (lit ''r'') = Inr [cand_a2]"
    by (simp add: search_variation_def two_variant_retriever_def hybrid_r)
  have 4: "score_of (fuse 0.7 0.3 [cand_a2] r_keyword) ''a'' = 1"
    by (simp add: fuse_r score_of_def)
  have 5: "query_embeddings two_variant_collection (lit ''q'') 16 = Inr q_semantic"
    "query_texts two_variant_collection (lit ''q'') 16 = Inr q_keyword"
    by (simp_all add: two_variant_collection_def)
  have 6: "hits q_keyword ! 0 = hit_a_kw" "hit_id hit_a_kw = ''a''" "1 - hit_distance hit_a_kw = 0.8"
    by (simp_all add: q_keyword_def hit_a_kw_def)
  have 7: "similarity cand_a1 = Val 0.4" "cand_id cand_a2 = cand_id cand_a1"
    "similarity cand_a2 = Val 0.9"
    by (simp_all add: cand_a1_def cand_a2_def)
  show ?thesis using 1 2 3 4 5 6 7 retrieve_two by simp
qed

text \<open>The amended claim C3 at the candidate \<open>a\<close> of the two-variation retrieval.\<close>

theorem similarity_from_semantic_hit_witness:
  "0 < similarity_threshold two_variant_retriever \<and>
   retrieve two_variant_retriever (lit ''q'') None = Inr [cand_b, cand_c, cand_a1] \<and>
   (\<exists>all_results v qr h.
      search_all two_variant_retriever (effective_k two_variant_retriever None)
        (expand_query two_variant_retriever (lit ''q'')) = Inr all_results \<and>
      find (\<lambda>x. fingerprint x = fingerprint cand_a1) all_results = Some cand_a1 \<and>
      v \<in> set (expand_query two_variant_retriever (lit ''q'')) \<and>
      query_embeddings (chroma_manager two_variant_retriever) v
        (if use_hybrid two_variant_retriever then effective_k two_variant_retriever None * 2
         else effective_k two_variant_retriever None) = Inr qr \<and>
      h \<in> set (hits qr) \<and>
      cand_a1 = format_result True h \<and>
      similarity cand_a1 = Val (1 - hit_distance h) \<and>
      similarity_threshold two_variant_retriever \<le> 1 - hit_distance h)"
proof -
  have t: "0 < similarity_threshold two_variant_retriever"
    by (simp add: two_variant_retriever_def)
  have m: "cand_a1 \<in> set [cand_b, cand_c, cand_a1]" by simp
  show ?thesis using similarity_from_semantic_hit[OF t retrieve_two m] t retrieve_two by blast
qed

subsection \<open>Where fused scores accumulate\<close>















end
